theory Spec2Isabelle
  imports
    Main
    "HOL-Library.Char_ord"
    "HOL-Library.List_Lexorder"
    "HOL-Library.Multiset"
    "HOL-Library.AList"
begin

section \<open>The two releases of the cache module\<close>

text \<open>
  The repository holds the cache module twice: \<^verbatim>\<open>django_performance_recorder/cache.py\<close>
  (three patterns in \<^verbatim>\<open>VARIABLE_RES\<close>, the event field called \<^verbatim>\<open>cache_name\<close>; it runs under
  Python 2 and under Python 3, through \<^verbatim>\<open>six\<close>) and \<^verbatim>\<open>django_perf_rec/cache.py\<close> (Python 3,
  five patterns, the field called \<^verbatim>\<open>alias\<close>). The control flow of both is the same; the
  model takes the release, and for the older one the Python it runs under, as a parameter
  wherever they make a difference.
\<close>

datatype python = Python2 | Python3

datatype release = Performance_recorder python | Perf_rec

section \<open>Regular expressions of \<^verbatim>\<open>VARIABLE_RES\<close>\<close>

text \<open>
  A key is a \<open>string\<close>: a list of characters with codes below 256. The patterns use three
  character classes, \<^verbatim>\<open>\d\<close>, \<^verbatim>\<open>[0-9a-f]\<close> and \<^verbatim>\<open>[0-9a-z]\<close>. Below code 256 the class \<^verbatim>\<open>\d\<close>
  holds the ten ASCII digits only, under Python 2 and under Python 3.
\<close>

datatype cls = Digit | Hex | LowerAlnum

definition is_digit :: "char \<Rightarrow> bool" where
  "is_digit c \<longleftrightarrow> CHR ''0'' \<le> c \<and> c \<le> CHR ''9''"

fun in_cls :: "cls \<Rightarrow> char \<Rightarrow> bool" where
  "in_cls Digit c = is_digit c"
| "in_cls Hex c = (is_digit c \<or> (CHR ''a'' \<le> c \<and> c \<le> CHR ''f''))"
| "in_cls LowerAlnum c = (is_digit c \<or> (CHR ''a'' \<le> c \<and> c \<le> CHR ''z''))"

text \<open>
  The word characters of \<^verbatim>\<open>\b\<close>. Both files compile their patterns without flags. Under
  Python 2 a word character then is one of \<^verbatim>\<open>[a-zA-Z0-9_]\<close>. Under Python 3 a \<^verbatim>\<open>str\<close>
  pattern also counts every alphanumeric code point; below 256 these are the codes listed
  in \<open>is_word_unicode\<close>.
\<close>

definition is_word_ascii :: "char \<Rightarrow> bool" where
  "is_word_ascii c \<longleftrightarrow>
     is_digit c \<or> (CHR ''a'' \<le> c \<and> c \<le> CHR ''z'') \<or> (CHR ''A'' \<le> c \<and> c \<le> CHR ''Z'')
     \<or> c = CHR ''_''"

definition is_word_unicode :: "char \<Rightarrow> bool" where
  "is_word_unicode c \<longleftrightarrow>
     is_word_ascii c
     \<or> (let n = (of_char c :: nat) in
          n \<in> {170, 178, 179, 181, 185, 186, 188, 189, 190}
          \<or> (192 \<le> n \<and> n \<le> 214) \<or> (216 \<le> n \<and> n \<le> 246) \<or> 248 \<le> n)"

fun is_word :: "release \<Rightarrow> char \<Rightarrow> bool" where
  "is_word (Performance_recorder Python2) c = is_word_ascii c"
| "is_word (Performance_recorder Python3) c = is_word_unicode c"
| "is_word Perf_rec c = is_word_unicode c"

text \<open>
  A pattern is a sequence of items: a fixed-string lookbehind \<^verbatim>\<open>(?<=...)\<close>, the word
  boundary \<^verbatim>\<open>\b\<close>, a class repeated exactly \<open>n\<close> times \<^verbatim>\<open>[..]{n}\<close>, a literal character,
  and a class repeated once or more \<^verbatim>\<open>[..]+\<close>.
\<close>

datatype item = Lookbehind string | Boundary | Rep nat cls | Lit char | Plus cls

type_synonym regex = "item list"

text \<open>
  \<open>at_boundary w pre s\<close>: the position between the text \<open>pre\<close> (held reversed: its
  head is the character just left of the position) and the text \<open>s\<close> is a word boundary
  when exactly one of its two neighbours is a word character; a missing neighbour counts
  as a non-word character.
\<close>

definition at_boundary :: "(char \<Rightarrow> bool) \<Rightarrow> string \<Rightarrow> string \<Rightarrow> bool" where
  "at_boundary w pre s \<longleftrightarrow>
     (case pre of [] \<Rightarrow> False | c # _ \<Rightarrow> w c) \<noteq> (case s of [] \<Rightarrow> False | c # _ \<Rightarrow> w c)"

text \<open>
  \<open>match_at w re pre s\<close> is the length of the match of \<open>re\<close> that starts at the
  position between \<open>pre\<close> and \<open>s\<close>, if there is one. The repetition \<open>Plus\<close> is greedy
  and is not backtracked into; in \<^verbatim>\<open>VARIABLE_RES\<close> it only occurs as the whole pattern
  \<^verbatim>\<open>\d+\<close>, where nothing can fail after it.
\<close>

fun match_at :: "(char \<Rightarrow> bool) \<Rightarrow> regex \<Rightarrow> string \<Rightarrow> string \<Rightarrow> nat option" where
  "match_at w [] pre s = Some 0"
| "match_at w (Lookbehind l # re) pre s =
     (if take (length l) pre = rev l then match_at w re pre s else None)"
| "match_at w (Boundary # re) pre s =
     (if at_boundary w pre s then match_at w re pre s else None)"
| "match_at w (Rep n c # re) pre s =
     (if n \<le> length s \<and> list_all (in_cls c) (take n s)
      then map_option (\<lambda>m. n + m) (match_at w re (rev (take n s) @ pre) (drop n s))
      else None)"
| "match_at w (Lit x # re) pre s =
     (case s of
        [] \<Rightarrow> None
      | y # ys \<Rightarrow> if y = x then map_option Suc (match_at w re (y # pre) ys) else None)"
| "match_at w (Plus c # re) pre s =
     (let run = takeWhile (in_cls c) s
      in if run = [] then None
         else map_option (\<lambda>m. length run + m)
                (match_at w re (rev run @ pre) (dropWhile (in_cls c) s)))"

text \<open>
  \<^verbatim>\<open>var_re.sub('#', key)\<close>: the subject is scanned from left to right; at each position
  the pattern is tried, a match is replaced by one \<^verbatim>\<open>#\<close> and the scan goes on after it,
  otherwise the character is copied. Lookbehind and \<^verbatim>\<open>\b\<close> read the subject itself, not the
  output built so far. No pattern of \<^verbatim>\<open>VARIABLE_RES\<close> matches the empty string
  (\<open>VARIABLE_RES_nonempty\<close> below), so the scan treats a match of length 0 as no match.
\<close>

function re_sub :: "(char \<Rightarrow> bool) \<Rightarrow> regex \<Rightarrow> string \<Rightarrow> string \<Rightarrow> string" where
  "re_sub w re pre [] = []"
| "re_sub w re pre (c # cs) =
     (case match_at w re pre (c # cs) of
        Some (Suc n) \<Rightarrow> CHR ''#'' # re_sub w re (rev (take n cs) @ c # pre) (drop n cs)
      | _ \<Rightarrow> c # re_sub w re (c # pre) cs)"
  by pat_completeness auto
termination
  by (relation "measure (\<lambda>(w, re, pre, s). length s)") auto

definition session_cache_re :: regex where
  \<comment> \<open>Django session keys for 'cache' backend\<close>
  "session_cache_re = [Lookbehind ''django.contrib.sessions.cache'', Rep 32 LowerAlnum, Boundary]"

definition session_cached_db_re :: regex where
  \<comment> \<open>Django session keys for 'cached_db' backend\<close>
  "session_cached_db_re =
     [Lookbehind ''django.contrib.sessions.cached_db'', Rep 32 LowerAlnum, Boundary]"

definition hash_re :: regex where
  \<comment> \<open>Long random hashes\<close>
  "hash_re = [Boundary, Rep 32 Hex, Boundary]"

definition uuid_re :: regex where
  \<comment> \<open>UUIDs\<close>
  "uuid_re =
     [Rep 8 Hex, Lit CHR ''-'', Rep 4 Hex, Lit CHR ''-'', Rep 4 Hex, Lit CHR ''-'',
      Rep 4 Hex, Lit CHR ''-'', Rep 12 Hex]"

definition integer_re :: regex where
  \<comment> \<open>Integers\<close>
  "integer_re = [Plus Digit]"

fun VARIABLE_RES :: "release \<Rightarrow> regex list" where
  "VARIABLE_RES (Performance_recorder py) = [hash_re, uuid_re, integer_re]"
| "VARIABLE_RES Perf_rec =
     [session_cache_re, session_cached_db_re, hash_re, uuid_re, integer_re]"

text \<open>
  \<^verbatim>\<open>CacheOp.clean_key\<close>: the patterns are applied one after the other, each to the result
  of the one before it.
\<close>

definition clean_key :: "release \<Rightarrow> string \<Rightarrow> string" where
  "clean_key r key = fold (\<lambda>var_re key. re_sub (is_word r) var_re [] key) (VARIABLE_RES r) key"

section \<open>Python values, errors, and the event \<^verbatim>\<open>CacheOp\<close>\<close>

text \<open>
  The values a cache method can receive as its key argument: a string, a list or tuple,
  a dict (its items in insertion order), a set, an integer, \<^verbatim>\<open>None\<close>.
\<close>

datatype pyval =
    PStr string
  | PSeq "pyval list"
  | PMap "(pyval \<times> pyval) list"
  | PSet "pyval list"
  | PInt int
  | PNone

datatype error =
    ValueError string
  | TypeError
  | IndexError
  | KeyError
  | AttributeError
  | AssertionError string
  | RecursionError
  | BackendError string

text \<open>\<^verbatim>\<open>isinstance(v, str)\<close> (\<^verbatim>\<open>six.string_types\<close> in the older file).\<close>

fun is_string :: "pyval \<Rightarrow> bool" where
  "is_string (PStr s) = True"
| "is_string v = False"

text \<open>
  \<^verbatim>\<open>isinstance(v, (Mapping, Sequence))\<close>. A string is a \<^verbatim>\<open>Sequence\<close> too; a set, an
  integer and \<^verbatim>\<open>None\<close> are neither.
\<close>

fun is_mapping_or_sequence :: "pyval \<Rightarrow> bool" where
  "is_mapping_or_sequence (PStr s) = True"
| "is_mapping_or_sequence (PSeq xs) = True"
| "is_mapping_or_sequence (PMap kvs) = True"
| "is_mapping_or_sequence v = False"

text \<open>
  \<^verbatim>\<open>for k in v\<close>: a string yields its one-character substrings, a list its elements, a
  dict its keys. (The other values are not iterated by the code.)
\<close>

fun py_iter :: "pyval \<Rightarrow> pyval list" where
  "py_iter (PStr s) = map (\<lambda>c. PStr [c]) s"
| "py_iter (PSeq xs) = xs"
| "py_iter (PMap kvs) = map fst kvs"
| "py_iter (PSet xs) = xs"
| "py_iter v = []"

text \<open>
  \<^verbatim>\<open>clean_key\<close> applied to a value: \<^verbatim>\<open>var_re.sub('#', key)\<close> raises \<^verbatim>\<open>TypeError\<close> when
  \<^verbatim>\<open>key\<close> is not a string.
\<close>

fun clean_key_val :: "release \<Rightarrow> pyval \<Rightarrow> error + string" where
  "clean_key_val r (PStr s) = Inr (clean_key r s)"
| "clean_key_val r v = Inl TypeError"

text \<open>
  The generator \<^verbatim>\<open>(self.clean_key(k) for k in key_or_keys)\<close>, consumed by \<^verbatim>\<open>sorted\<close>: the
  first key that raises ends it.
\<close>

fun clean_keys :: "release \<Rightarrow> pyval list \<Rightarrow> error + string list" where
  "clean_keys r [] = Inr []"
| "clean_keys r (k # ks) =
     (case clean_key_val r k of
        Inl e \<Rightarrow> Inl e
      | Inr c \<Rightarrow> (case clean_keys r ks of Inl e \<Rightarrow> Inl e | Inr cs \<Rightarrow> Inr (c # cs)))"

datatype keyval = Key string | Keys "string list"

record CacheOp =
  "alias" :: string
  operation :: string
  key_or_keys :: keyval

text \<open>
  \<^verbatim>\<open>CacheOp.__init__\<close>. Python's \<^verbatim>\<open>sorted\<close> on strings orders them lexicographically by
  character code, which is the order of \<open>string\<close> here. \<^verbatim>\<open>CacheOp.__eq__\<close> compares the three
  fields, which is equality of the record.
\<close>

definition CacheOp_init :: "release \<Rightarrow> string \<Rightarrow> string \<Rightarrow> pyval \<Rightarrow> error + CacheOp" where
  "CacheOp_init r alias' operation' key_or_keys' =
     (if is_string key_or_keys' then
        (case clean_key_val r key_or_keys' of
           Inl e \<Rightarrow> Inl e
         | Inr k \<Rightarrow> Inr \<lparr>alias = alias', operation = operation', key_or_keys = Key k\<rparr>)
      else if is_mapping_or_sequence key_or_keys' then
        (case clean_keys r (py_iter key_or_keys') of
           Inl e \<Rightarrow> Inl e
         | Inr ks \<Rightarrow> Inr \<lparr>alias = alias', operation = operation', key_or_keys = Keys (sort ks)\<rparr>)
      else Inl (ValueError ''key_or_keys must be a string, mapping, or sequence''))"

section \<open>The instrumented method\<close>

text \<open>
  An object is known by its identity: the cache object \<^verbatim>\<open>caches[alias]\<close>, or any other
  object. A call sees the local variable \<^verbatim>\<open>self\<close> of the frame that makes it
  (\<^verbatim>\<open>frame.f_back.f_locals.get('self', None)\<close>): \<open>None\<close> when that frame has no such local.

  A bound method has its \<^verbatim>\<open>__name__\<close> and its behaviour: given the caller's \<^verbatim>\<open>self\<close>, the
  positional and the keyword arguments and the state \<open>'s\<close> it works on, it returns or
  raises, and leaves a state.
\<close>

datatype objref = CacheObject string | OtherObject nat

type_synonym kwargs = "(string \<times> pyval) list"

type_synonym 's behaviour =
  "objref option \<Rightarrow> pyval list \<Rightarrow> kwargs \<Rightarrow> 's \<Rightarrow> (error + pyval) \<times> 's"

record 's bound_method =
  m_name :: string
  m_call :: "'s behaviour"

text \<open>
  \<^verbatim>\<open>inner\<close>, the closure built by \<^verbatim>\<open>call_callback(func)\<close> with \<^verbatim>\<open>alias\<close> and \<^verbatim>\<open>callback\<close>.
  \<^verbatim>\<open>args[0]\<close> raises \<^verbatim>\<open>IndexError\<close> on an empty tuple. The frame of \<^verbatim>\<open>inner\<close> has the
  local \<^verbatim>\<open>self\<close>, so that is what \<^verbatim>\<open>func\<close> sees as its caller's \<^verbatim>\<open>self\<close>.
\<close>

definition inner ::
  "release \<Rightarrow> 's bound_method \<Rightarrow> string \<Rightarrow> (CacheOp \<Rightarrow> 's \<Rightarrow> 's) \<Rightarrow> objref \<Rightarrow> 's behaviour" where
  "inner r func alias' callback self caller_self args kwargs st =
     (let is_internal_call = (caller_self = Some self) in
      if \<not> is_internal_call then
        (case args of
           [] \<Rightarrow> (Inl IndexError, st)
         | key # _ \<Rightarrow>
             (case CacheOp_init r alias' (m_name func) key of
                Inl e \<Rightarrow> (Inl e, st)
              | Inr cache_op \<Rightarrow> m_call func (Some self) args kwargs (callback cache_op st)))
      else m_call func (Some self) args kwargs st)"

text \<open>
  What \<^verbatim>\<open>MethodType(call_callback(func), cache)\<close> does when called: \<^verbatim>\<open>inner\<close> bound to the
  cache object; \<^verbatim>\<open>@wraps(func)\<close> gives it the name of \<^verbatim>\<open>func\<close>.
\<close>

definition call_callback ::
  "release \<Rightarrow> string \<Rightarrow> (CacheOp \<Rightarrow> 's \<Rightarrow> 's) \<Rightarrow> 's bound_method \<Rightarrow> objref \<Rightarrow> 's bound_method" where
  "call_callback r alias' callback func cache =
     \<lparr>m_name = m_name func, m_call = inner r func alias' callback cache\<rparr>"

section \<open>Cache objects and their methods\<close>

text \<open>
  What an attribute of a cache object holds: the method of the backend class with that
  name, bound to the object (what \<^verbatim>\<open>getattr\<close> reads from an object that nothing has
  patched), or the instrumented method \<^verbatim>\<open>MethodType(call_callback(func), cache)\<close> of a
  recorder, known by the alias and the callback of the recorder and by the method \<^verbatim>\<open>func\<close>
  it wraps. \<^verbatim>\<open>@wraps(func)\<close> gives the instrumented method the name of \<^verbatim>\<open>func\<close>.
\<close>

datatype 's "method" = ClassMethod string | Instrumented string "CacheOp \<Rightarrow> 's \<Rightarrow> 's" "'s method"

fun method_name :: "'s method \<Rightarrow> string" where
  "method_name (ClassMethod name) = name"
| "method_name (Instrumented a cb func) = method_name func"

text \<open>
  A cache object is its attribute table (attribute name to method); \<^verbatim>\<open>caches\<close> maps an
  alias to its cache object, a different object for each alias.
\<close>

type_synonym 's cache = "string \<Rightarrow> 's method"

type_synonym 's caches = "string \<Rightarrow> 's cache"

text \<open>
  The code of a method of the backend class is a program over the contents \<open>'b\<close> of the
  backend: it returns or raises; or reads the contents, changes them and goes on; or calls
  \<^verbatim>\<open>self.name(*args, **kwargs)\<close>, a method of its own cache object, and goes on with what
  the call returned or raised. It does not look at the frame of its caller. The class
  gives the program for each method name and arguments (the backend classes are not part
  of the repository; they are a parameter).
\<close>

datatype 'b prog =
    Return "error + pyval"
  | Backend "'b \<Rightarrow> 'b" "'b \<Rightarrow> 'b prog"
  | SelfCall string "pyval list" kwargs "error + pyval \<Rightarrow> 'b prog"

type_synonym 'b impl = "string \<Rightarrow> pyval list \<Rightarrow> kwargs \<Rightarrow> 'b prog"

text \<open>
  Running a program on the state, the contents of the backend and the state of the
  recorder, where \<open>self_call\<close> says what a call of a method of the own object does.
\<close>

primrec run ::
  "(string \<Rightarrow> pyval list \<Rightarrow> kwargs \<Rightarrow> 'b \<times> 'r \<Rightarrow> (error + pyval) \<times> 'b \<times> 'r) \<Rightarrow> 'b prog
     \<Rightarrow> 'b \<times> 'r \<Rightarrow> (error + pyval) \<times> 'b \<times> 'r" where
  "run self_call (Return v) = (\<lambda>st. (v, st))"
| "run self_call (Backend u k) = (\<lambda>st. run self_call (k (fst st)) (u (fst st), snd st))"
| "run self_call (SelfCall name args kwargs k) =
     (\<lambda>st. case self_call name args kwargs st of (res, st') \<Rightarrow> run self_call (k res) st')"

text \<open>
  Calling a method held by the cache object \<open>self\<close> with the attribute table \<open>cache\<close>.
  A method of the class runs its program; a call \<^verbatim>\<open>self.name(...)\<close> in it looks the
  attribute up in the table as it is now, and is made from a frame whose local \<^verbatim>\<open>self\<close> is
  the cache object. An instrumented method runs \<^verbatim>\<open>inner\<close>, bound to the cache object of its
  alias, around the method it wraps. \<open>depth\<close> is the number of frames of class methods
  that may still be nested: Python raises \<^verbatim>\<open>RecursionError\<close> beyond its limit (the frames
  of \<^verbatim>\<open>inner\<close> are not counted).
\<close>

function call_method ::
  "release \<Rightarrow> 'b impl \<Rightarrow> ('b \<times> 'r) cache \<Rightarrow> objref \<Rightarrow> nat \<Rightarrow> ('b \<times> 'r) method
     \<Rightarrow> ('b \<times> 'r) behaviour" where
  "call_method r impl cache self 0 (ClassMethod name) caller_self args kwargs st =
     (Inl RecursionError, st)"
| "call_method r impl cache self (Suc depth) (ClassMethod name) caller_self args kwargs st =
     run (\<lambda>name' args' kwargs' st'.
            call_method r impl cache self depth (cache name') (Some self) args' kwargs' st')
       (impl name args kwargs) st"
| "call_method r impl cache self depth (Instrumented a cb func) caller_self args kwargs st =
     m_call (call_callback r a cb
               \<lparr>m_name = method_name func,
                m_call = (\<lambda>caller_self' args' kwargs' st'.
                            call_method r impl cache self depth func caller_self' args' kwargs' st')\<rparr>
               (CacheObject a))
       caller_self args kwargs st"
  by pat_completeness auto
termination
  by (relation "measures [\<lambda>(r, impl, cache, self, depth, m, rest). depth,
                          \<lambda>(r, impl, cache, self, depth, m, rest). size m]") auto

section \<open>\<^verbatim>\<open>CacheRecorder\<close> and \<^verbatim>\<open>AllCacheRecorder\<close>\<close>

definition cache_methods :: "string list" where
  "cache_methods =
     [''add'', ''decr'', ''delete'', ''delete_many'', ''get'', ''get_many'', ''incr'', ''set'',
      ''set_many'']"

record 's CacheRecorder =
  rec_alias :: string
  callback :: "CacheOp \<Rightarrow> 's \<Rightarrow> 's"
  orig_methods :: "(string \<times> 's method) list option"

text \<open>
  \<^verbatim>\<open>CacheRecorder.__enter__\<close>. The loop looks each name up in the dict built from the same
  tuple just before, so the lookup is the method read by \<^verbatim>\<open>getattr\<close>. The attribute is set
  to the instrumented method, bound to the cache object of the alias of the recorder.
\<close>

definition CacheRecorder_enter ::
  "'s CacheRecorder \<Rightarrow> 's caches \<Rightarrow> 's CacheRecorder \<times> 's caches" where
  "CacheRecorder_enter rc caches =
     (let cache = caches (rec_alias rc);
          orig = map (\<lambda>name. (name, cache name)) cache_methods;
          cache' = fold (\<lambda>(name, orig_method) c.
                      c(name := Instrumented (rec_alias rc) (callback rc) orig_method))
                     orig cache
      in (rc\<lparr>orig_methods := Some orig\<rparr>, caches(rec_alias rc := cache')))"

text \<open>
  \<^verbatim>\<open>CacheRecorder.__exit__\<close>: reading \<^verbatim>\<open>self.orig_methods\<close> before \<^verbatim>\<open>__enter__\<close> has set it
  raises \<^verbatim>\<open>AttributeError\<close>, a name missing from the dict \<^verbatim>\<open>KeyError\<close>; the methods set
  before the error stay set. The three arguments are ignored.
\<close>

fun restore ::
  "(string \<times> 's method) list \<Rightarrow> string list \<Rightarrow> 's cache \<Rightarrow> (error + unit) \<times> 's cache" where
  "restore orig [] cache = (Inr (), cache)"
| "restore orig (name # names) cache =
     (case map_of orig name of
        None \<Rightarrow> (Inl KeyError, cache)
      | Some m \<Rightarrow> restore orig names (cache(name := m)))"

definition CacheRecorder_exit ::
  "'s CacheRecorder \<Rightarrow> 's caches \<Rightarrow> (error + unit) \<times> 's CacheRecorder \<times> 's caches" where
  "CacheRecorder_exit rc caches =
     (case orig_methods rc of
        None \<Rightarrow> (Inl AttributeError, rc, caches)
      | Some orig \<Rightarrow>
          (case restore orig cache_methods (caches (rec_alias rc)) of
             (Inl e, cache') \<Rightarrow> (Inl e, rc, caches(rec_alias rc := cache'))
           | (Inr u, cache') \<Rightarrow>
               (Inr (), rc\<lparr>orig_methods := None\<rparr>, caches(rec_alias rc := cache'))))"

record 's AllCacheRecorder =
  all_callback :: "CacheOp \<Rightarrow> 's \<Rightarrow> 's"
  recorders :: "'s CacheRecorder list option"

text \<open>
  \<^verbatim>\<open>AllCacheRecorder.__enter__\<close>. \<open>names\<close> is the value of
  \<^verbatim>\<open>sorted_names(settings.CACHES.keys())\<close>; \<^verbatim>\<open>sorted_names\<close> is defined in \<^verbatim>\<open>utils\<close>.
\<close>

fun enter_each ::
  "(CacheOp \<Rightarrow> 's \<Rightarrow> 's) \<Rightarrow> string list \<Rightarrow> 's CacheRecorder list \<Rightarrow> 's caches
     \<Rightarrow> 's CacheRecorder list \<times> 's caches" where
  "enter_each cb [] recs caches = (recs, caches)"
| "enter_each cb (name # names) recs caches =
     (let recorder = \<lparr>rec_alias = name, callback = cb, orig_methods = None\<rparr>;
          (recorder', caches') = CacheRecorder_enter recorder caches
      in enter_each cb names (recs @ [recorder']) caches')"

definition AllCacheRecorder_enter ::
  "string list \<Rightarrow> 's AllCacheRecorder \<Rightarrow> 's caches \<Rightarrow> 's AllCacheRecorder \<times> 's caches" where
  "AllCacheRecorder_enter names acr caches =
     (let (recs, caches') = enter_each (all_callback acr) names [] caches
      in (acr\<lparr>recorders := Some recs\<rparr>, caches'))"

text \<open>
  \<^verbatim>\<open>AllCacheRecorder.__exit__\<close>: the recorders are left in the order \<^verbatim>\<open>reversed\<close> gives. A
  recorder that raises ends the loop, and \<^verbatim>\<open>self.recorders\<close> is not reset. The exception
  triple \<open>exc\<close> of the \<^verbatim>\<open>with\<close> statement is handed on and never read.
\<close>

fun exit_each ::
  "error option \<Rightarrow> 's CacheRecorder list \<Rightarrow> 's caches \<Rightarrow> (error + unit) \<times> 's caches" where
  "exit_each exc [] caches = (Inr (), caches)"
| "exit_each exc (recorder # rest) caches =
     (case CacheRecorder_exit recorder caches of
        (Inl e, recorder', caches') \<Rightarrow> (Inl e, caches')
      | (Inr u, recorder', caches') \<Rightarrow> exit_each exc rest caches')"

definition AllCacheRecorder_exit ::
  "error option \<Rightarrow> 's AllCacheRecorder \<Rightarrow> 's caches
     \<Rightarrow> (error + unit) \<times> 's AllCacheRecorder \<times> 's caches" where
  "AllCacheRecorder_exit exc acr caches =
     (case recorders acr of
        None \<Rightarrow> (Inl AttributeError, acr, caches)
      | Some recs \<Rightarrow>
          (case exit_each exc (rev recs) caches of
             (Inl e, caches') \<Rightarrow> (Inl e, acr, caches')
           | (Inr u, caches') \<Rightarrow> (Inr (), acr\<lparr>recorders := Some []\<rparr>, caches')))"

section \<open>The snapshot store \<^verbatim>\<open>KVFile\<close>\<close>

text \<open>
  \<^verbatim>\<open>api.py\<close> imports \<^verbatim>\<open>KVFile\<close> from the module \<^verbatim>\<open>yaml\<close> of the package, which is not among
  the source files. The store is the Snapshot Store of the specification.
\<close>

text \<open>
  Modelled from the spec: the data of the store. A recording is the list \<^verbatim>\<open>self.record\<close> of
  single-key mappings \<^verbatim>\<open>{name: key_or_keys}\<close>, each held as a pair. The text of a snapshot
  file is the sequence of its entries, recording name and recording, in the order they
  stand in the file; the disk maps a path to the text of the file there, if there is one.
\<close>

type_synonym recording = "(string \<times> keyval) list"

type_synonym kv_text = "(string \<times> recording) list"

type_synonym disk = "string \<rightharpoonup> kv_text"

text \<open>
  Modelled from the spec: the store object, with the path of its file and its in-memory
  mapping of recording name to recording.
\<close>

record KVFile =
  kv_file_name :: string
  kv_data :: "(string \<times> recording) list"

text \<open>
  Modelled from the spec: reading the text of a snapshot file into the in-memory mapping
  (an insertion-ordered dict): each entry of the file is stored under its name.
\<close>

definition kv_parse :: "kv_text \<Rightarrow> (string \<times> recording) list" where
  "kv_parse text' = fold (\<lambda>(name, rec) d. AList.update name rec d) text' []"

text \<open>
  Modelled from the spec: writing the mapping out. "Entries are stored in a stable
  serialized order independent of in-memory mapping order": ascending by name.
\<close>

definition kv_dump :: "(string \<times> recording) list \<Rightarrow> kv_text" where
  "kv_dump d = sort_key fst d"

text \<open>
  Modelled from the spec: \<^verbatim>\<open>KVFile(file_name)\<close>, the \<^verbatim>\<open>load(path)\<close> of the spec. "Loading a
  nonexistent file yields an empty mapping (not an error)."
\<close>

definition KVFile_init :: "string \<Rightarrow> disk \<Rightarrow> KVFile" where
  "KVFile_init file_name' dsk =
     \<lparr>kv_file_name = file_name',
      kv_data = (case dsk file_name' of None \<Rightarrow> [] | Some text' \<Rightarrow> kv_parse text')\<rparr>"

text \<open>
  Modelled from the spec: \<^verbatim>\<open>get(mapping, name, default)\<close> with the default \<^verbatim>\<open>None\<close> that
  \<^verbatim>\<open>save_or_assert\<close> passes.
\<close>

definition KVFile_get :: "KVFile \<Rightarrow> string \<Rightarrow> recording option" where
  "KVFile_get kv name = map_of (kv_data kv) name"

text \<open>
  Modelled from the spec: \<^verbatim>\<open>set_and_save(path, name, recording)\<close>. The entry is set in the
  mapping and "the Snapshot Store's in-memory mapping is ... written back in full on save".
\<close>

definition KVFile_set_and_save :: "KVFile \<Rightarrow> string \<Rightarrow> recording \<Rightarrow> disk \<Rightarrow> KVFile \<times> disk" where
  "KVFile_set_and_save kv name rec dsk =
     (let data' = AList.update name rec (kv_data kv)
      in (kv\<lparr>kv_data := data'\<rparr>, dsk(kv_file_name kv \<mapsto> kv_dump data')))"


section \<open>The recording session (\<^verbatim>\<open>api.py\<close>)\<close>

text \<open>
  \<^verbatim>\<open>api.py\<close> belongs to the older package and uses its cache module. The state that the
  cache methods and the callback work on is the pair of the backends' contents \<open>'b\<close> and
  the list \<^verbatim>\<open>self.record\<close> of the session. The world of a session is that state, the
  attribute tables of the cache objects, and the disk.
\<close>

record 'b world =
  w_caches :: "('b \<times> recording) caches"
  w_backend :: 'b
  w_record :: recording
  w_disk :: disk

record 'b PerformanceRecorder =
  file_name :: string
  record_name :: string
  cache_recorder :: "('b \<times> recording) AllCacheRecorder"
  records_file :: "KVFile option"

text \<open>\<^verbatim>\<open>django.core.cache.DEFAULT_CACHE_ALIAS\<close>.\<close>

definition DEFAULT_CACHE_ALIAS :: string where
  "DEFAULT_CACHE_ALIAS = ''default''"

text \<open>\<^verbatim>\<open>'|'.join(name_parts)\<close>.\<close>

fun join :: "string \<Rightarrow> string list \<Rightarrow> string" where
  "join sep [] = []"
| "join sep [x] = x"
| "join sep (x # y # ys) = x @ sep @ join sep (y # ys)"

definition on_cache_op :: "CacheOp \<Rightarrow> 'b \<times> recording \<Rightarrow> 'b \<times> recording" where
  "on_cache_op cache_op st =
     (let name_parts = [''cache''];
          name_parts = (if alias cache_op \<noteq> DEFAULT_CACHE_ALIAS
                        then name_parts @ [alias cache_op] else name_parts);
          name_parts = name_parts @ [operation cache_op];
          name = join ''|'' name_parts
      in (fst st, snd st @ [(name, key_or_keys cache_op)]))"

text \<open>\<^verbatim>\<open>PerformanceRecorder.__init__\<close>; \<^verbatim>\<open>self.record = []\<close> is the list of the state.\<close>

definition PerformanceRecorder_init ::
  "string \<Rightarrow> string \<Rightarrow> 'b world \<Rightarrow> 'b PerformanceRecorder \<times> 'b world" where
  "PerformanceRecorder_init file_name' record_name' w =
     (\<lparr>file_name = file_name', record_name = record_name',
       cache_recorder = \<lparr>all_callback = on_cache_op, recorders = None\<rparr>,
       records_file = None\<rparr>,
      w\<lparr>w_record := []\<rparr>)"

text \<open>\<^verbatim>\<open>PerformanceRecorder.__enter__\<close>, with \<^verbatim>\<open>load_recordings\<close>.\<close>

definition PerformanceRecorder_enter ::
  "string list \<Rightarrow> 'b PerformanceRecorder \<Rightarrow> 'b world \<Rightarrow> 'b PerformanceRecorder \<times> 'b world" where
  "PerformanceRecorder_enter names pr w =
     (let (acr', caches') =
            AllCacheRecorder_enter names (cache_recorder pr) (w_caches w);
          kv = KVFile_init (file_name pr) (w_disk w)
      in (pr\<lparr>cache_recorder := acr', records_file := Some kv\<rparr>, w\<lparr>w_caches := caches'\<rparr>))"

text \<open>\<^verbatim>\<open>assert cond, msg\<close>.\<close>

definition py_assert :: "bool \<Rightarrow> string \<Rightarrow> error + unit" where
  "py_assert cond msg = (if cond then Inr () else Inl (AssertionError msg))"

text \<open>
  \<^verbatim>\<open>PerformanceRecorder.save_or_assert\<close>. Reading \<^verbatim>\<open>self.records_file\<close> before
  \<^verbatim>\<open>load_recordings\<close> has set it raises \<^verbatim>\<open>AttributeError\<close>.
\<close>

definition save_or_assert ::
  "'b PerformanceRecorder \<Rightarrow> 'b world \<Rightarrow> (error + unit) \<times> 'b PerformanceRecorder \<times> 'b world" where
  "save_or_assert pr w =
     (case records_file pr of
        None \<Rightarrow> (Inl AttributeError, pr, w)
      | Some kv \<Rightarrow>
          (let orig_record = KVFile_get kv (record_name pr);
               checked = (case orig_record of
                            None \<Rightarrow> Inr ()
                          | Some orig \<Rightarrow>
                              py_assert (w_record w = orig)
                                (''Performance record did not match for '' @ record_name pr))
           in case checked of
                Inl e \<Rightarrow> (Inl e, pr, w)
              | Inr u \<Rightarrow>
                  (let (kv', disk') =
                         KVFile_set_and_save kv (record_name pr) (w_record w) (w_disk w)
                   in (Inr (), pr\<lparr>records_file := Some kv'\<rparr>, w\<lparr>w_disk := disk'\<rparr>))))"

text \<open>
  \<^verbatim>\<open>PerformanceRecorder.__exit__\<close>: \<open>exc\<close> is \<open>None\<close> when the body of the \<^verbatim>\<open>with\<close> statement
  ended normally (\<^verbatim>\<open>exc_type is None\<close>), and the exception that left it otherwise.
\<close>

definition PerformanceRecorder_exit ::
  "error option \<Rightarrow> 'b PerformanceRecorder \<Rightarrow> 'b world
     \<Rightarrow> (error + unit) \<times> 'b PerformanceRecorder \<times> 'b world" where
  "PerformanceRecorder_exit exc pr w =
     (case AllCacheRecorder_exit exc (cache_recorder pr) (w_caches w) of
        (Inl e, acr', caches') \<Rightarrow> (Inl e, pr\<lparr>cache_recorder := acr'\<rparr>, w\<lparr>w_caches := caches'\<rparr>)
      | (Inr u, acr', caches') \<Rightarrow>
          (let pr' = pr\<lparr>cache_recorder := acr'\<rparr>; w' = w\<lparr>w_caches := caches'\<rparr>
           in if exc = None then save_or_assert pr' w' else (Inr (), pr', w')))"

section \<open>Opening a session: \<^verbatim>\<open>record\<close>\<close>

text \<open>
  \<^verbatim>\<open>current_test()\<close> comes from \<^verbatim>\<open>utils\<close>; its result is a parameter here. The thread-local
  \<^verbatim>\<open>record_current\<close> has no attribute at first (\<open>None\<close>), and then holds \<^verbatim>\<open>record_name\<close>
  and \<^verbatim>\<open>counter\<close>, which are always set together. The counter starts at 1 and is only
  ever incremented, so it is a natural number.
\<close>

record test_details =
  file_path :: string
  class_name :: "string option"
  test_name :: string

type_synonym record_current = "(string \<times> nat) option"

text \<open>\<^verbatim>\<open>'{}'.format(n)\<close> for a natural number: its decimal digits.\<close>

fun str_nat :: "nat \<Rightarrow> string" where
  "str_nat n =
     (if n < 10 then [char_of (48 + n)] else str_nat (n div 10) @ [char_of (48 + n mod 10)])"

declare str_nat.simps [simp del]

definition endswith :: "string \<Rightarrow> string \<Rightarrow> bool" where
  "endswith s suf \<longleftrightarrow> length suf \<le> length s \<and> drop (length s - length suf) s = suf"

text \<open>The name derived from the test: \<^verbatim>\<open>'{class_}.{test}'\<close>, or the test name alone.\<close>

definition derived_name :: "test_details \<Rightarrow> string" where
  "derived_name td =
     (case class_name td of
        Some c \<Rightarrow> if c \<noteq> [] then c @ ''.'' @ test_name td else test_name td
      | None \<Rightarrow> test_name td)"

text \<open>
  \<^verbatim>\<open>record(file_name=None, record_name=None)\<close>. It returns the file name and the record
  name that \<^verbatim>\<open>PerformanceRecorder\<close> is built with, and the thread-local afterwards.
\<close>

definition record_fn ::
  "test_details \<Rightarrow> string option \<Rightarrow> string option \<Rightarrow> record_current
     \<Rightarrow> (string \<times> string) \<times> record_current" where
  "record_fn td file_name' record_name' rc =
     (let file_name'' =
            (case file_name' of
               None \<Rightarrow>
                 (let f = file_path td
                  in if endswith f ''.py''
                     then take (length f - length ''.py'') f @ ''.perf.yml''
                     else f @ ''.perf.yml'')
             | Some f \<Rightarrow> f);
          (record_name'', rc') =
            (case record_name' of
               None \<Rightarrow>
                 (let n = derived_name td
                  in case rc of
                       Some (cur, counter) \<Rightarrow>
                         if cur = n
                         then (n @ ''.'' @ str_nat (counter + 1), Some (cur, counter + 1))
                         else (n, Some (n, 1))
                     | None \<Rightarrow> (n, Some (n, 1)))
             | Some n \<Rightarrow> (n, rc))
      in ((file_name'', record_name''), rc'))"

text \<open>
  The names of the sessions opened one after the other on one thread, each by
  \<^verbatim>\<open>record()\<close> without arguments, for the tests \<open>tds\<close> in that order.
\<close>

fun session_names :: "test_details list \<Rightarrow> record_current \<Rightarrow> string list" where
  "session_names [] rc = []"
| "session_names (td # tds) rc =
     (case record_fn td None None rc of
        ((f, name), rc') \<Rightarrow> name # session_names tds rc')"

section \<open>Notions used in the statements\<close>

text \<open>A callback that works on the recorder's part of the state only.\<close>

definition recorder_callback :: "(CacheOp \<Rightarrow> 'r \<Rightarrow> 'r) \<Rightarrow> CacheOp \<Rightarrow> 'b \<times> 'r \<Rightarrow> 'b \<times> 'r" where
  "recorder_callback cb cache_op st = (fst st, cb cache_op (snd st))"

text \<open>A callback that leaves the contents of the backend as they are.\<close>

definition keeps_backend :: "(CacheOp \<Rightarrow> 'b \<times> 'r \<Rightarrow> 'b \<times> 'r) \<Rightarrow> bool" where
  "keeps_backend cb \<longleftrightarrow> (\<forall>cache_op b rs. fst (cb cache_op (b, rs)) = b)"

text \<open>
  A method as the cache object of the alias \<open>a\<close> can hold it: the method of the class, with
  any number of instrumented methods around it, each installed by a recorder for that
  alias whose callback leaves the contents of the backend as they are.
\<close>

fun installed_for :: "string \<Rightarrow> ('b \<times> 'r) method \<Rightarrow> bool" where
  "installed_for a (ClassMethod name) = True"
| "installed_for a (Instrumented a' cb func) =
     (a' = a \<and> keeps_backend cb \<and> installed_for a func)"

text \<open>
  A key argument whose keys are all strings: a string, or a mapping or sequence that
  yields strings only.
\<close>

definition string_keyed :: "pyval \<Rightarrow> bool" where
  "string_keyed k \<longleftrightarrow>
     is_string k \<or> (is_mapping_or_sequence k \<and> list_all is_string (py_iter k))"

text \<open>\<open>has_run n c s\<close>: somewhere in \<open>s\<close> stand \<open>n\<close> characters of the class \<open>c\<close> in a row.\<close>

fun has_run :: "nat \<Rightarrow> cls \<Rightarrow> string \<Rightarrow> bool" where
  "has_run n c [] = (n = 0)"
| "has_run n c (x # xs) = (n \<le> length (takeWhile (in_cls c) (x # xs)) \<or> has_run n c xs)"

text \<open>The characters of a string value (and no characters for any other value).\<close>

fun str_of :: "pyval \<Rightarrow> string" where
  "str_of (PStr s) = s"
| "str_of v = []"

text \<open>
  A sample backend class: the contents are the stored items; \<^verbatim>\<open>get\<close> looks one key up,
  \<^verbatim>\<open>set\<close> stores an item, and \<^verbatim>\<open>get_many\<close> calls \<^verbatim>\<open>self.get\<close> for each key in turn and
  returns the items found, as the base class of Django's backends does.
\<close>

fun sample_get_many :: "pyval list \<Rightarrow> (pyval \<times> pyval) list \<Rightarrow> (pyval \<times> pyval) list prog" where
  "sample_get_many [] found = Return (Inr (PMap found))"
| "sample_get_many (k # ks) found =
     SelfCall ''get'' [k] []
       (\<lambda>res. case res of
                 Inl e \<Rightarrow> Return (Inl e)
               | Inr v \<Rightarrow> sample_get_many ks (if v = PNone then found else found @ [(k, v)]))"

definition sample_impl :: "(pyval \<times> pyval) list impl" where
  "sample_impl name args kwargs =
     (if name = ''get'' then
        (case args of
           [k] \<Rightarrow> Backend id (\<lambda>b. Return (Inr (case map_of b k of None \<Rightarrow> PNone | Some v \<Rightarrow> v)))
         | _ \<Rightarrow> Return (Inl TypeError))
      else if name = ''set'' then
        (case args of
           [k, v] \<Rightarrow> Backend (\<lambda>b. AList.update k v b) (\<lambda>b. Return (Inr PNone))
         | _ \<Rightarrow> Return (Inl TypeError))
      else if name = ''get_many'' then
        (case args of
           [keys] \<Rightarrow> sample_get_many (py_iter keys) []
         | _ \<Rightarrow> Return (Inl TypeError))
      else Return (Inl AttributeError))"

text \<open>
  Cache objects of that class that nothing has patched, and a recorder for the default
  cache whose callback appends the event to a list.
\<close>

definition sample_caches :: "((pyval \<times> pyval) list \<times> 'r) caches" where
  "sample_caches = (\<lambda>a name. ClassMethod name)"

definition sample_recorder :: "((pyval \<times> pyval) list \<times> CacheOp list) CacheRecorder" where
  "sample_recorder =
     \<lparr>rec_alias = ''default'',
      callback = recorder_callback (\<lambda>cache_op rs. rs @ [cache_op]),
      orig_methods = None\<rparr>"

text \<open>
  Two sessions, one inside the other, each with a record of its own: the cache objects as
  the recorder of the first session leaves them, and the callback of the second.
\<close>

definition record_first :: "CacheOp \<Rightarrow> CacheOp list \<times> CacheOp list \<Rightarrow> CacheOp list \<times> CacheOp list" where
  "record_first cache_op rs = (fst rs @ [cache_op], snd rs)"

definition record_second :: "CacheOp \<Rightarrow> CacheOp list \<times> CacheOp list \<Rightarrow> CacheOp list \<times> CacheOp list" where
  "record_second cache_op rs = (fst rs, snd rs @ [cache_op])"

definition sample_caches_recorded ::
  "((pyval \<times> pyval) list \<times> CacheOp list \<times> CacheOp list) caches" where
  "sample_caches_recorded =
     snd (CacheRecorder_enter
            \<lparr>rec_alias = ''default'', callback = recorder_callback record_first,
             orig_methods = None\<rparr>
            sample_caches)"

text \<open>
  A sample world: every attribute of every cache object is the method of its class, and the
  snapshot file of the test module holds one recording, under \<^verbatim>\<open>T.test_a\<close>; and a session for
  that file and name. In the second world the file holds a recording for another test
  only, and in the third the two recordings stand in the file the other way round than the
  store writes them.
\<close>

definition sample_world :: "nat world" where
  "sample_world =
     \<lparr>w_caches = (\<lambda>a name. ClassMethod name),
      w_backend = 0,
      w_record = [],
      w_disk = [''tests/test_a.perf.yml'' \<mapsto> [(''T.test_a'', [(''cache|get'', Key ''user:#'')])]]\<rparr>"



definition sample_session :: "nat PerformanceRecorder" where
  "sample_session = fst (PerformanceRecorder_init ''tests/test_a.perf.yml'' ''T.test_a'' sample_world)"

text \<open>
  A plain pattern has only fixed repetitions and literals other than \<^verbatim>\<open>#\<close>; a match of it
  has the length \<open>width\<close> and is decided by that many characters alone.
\<close>

fun plain :: "regex \<Rightarrow> bool" where
  "plain [] = True"
| "plain (Rep n c # re) = plain re"
| "plain (Lit x # re) = (x \<noteq> CHR ''#'' \<and> plain re)"
| "plain (i # re) = False"

fun width :: "regex \<Rightarrow> nat" where
  "width [] = 0"
| "width (Rep n c # re) = n + width re"
| "width (Lit x # re) = 1 + width re"
| "width (i # re) = width re"

text \<open>
  \<open>matches_in w re pre s\<close>: the pattern matches at some position of \<open>s\<close>, the text \<open>pre\<close>
  standing before it. The patterns of a release that are anchored at a word boundary are
  those for session keys and hashes.
\<close>

fun matches_in :: "(char \<Rightarrow> bool) \<Rightarrow> regex \<Rightarrow> string \<Rightarrow> string \<Rightarrow> bool" where
  "matches_in w re pre [] = False"
| "matches_in w re pre (c # cs) =
     (case match_at w re pre (c # cs) of
        Some (Suc n) \<Rightarrow> True
      | _ \<Rightarrow> matches_in w re (c # pre) cs)"

fun boundary_res :: "release \<Rightarrow> regex list" where
  "boundary_res (Performance_recorder py) = [hash_re]"
| "boundary_res Perf_rec = [session_cache_re, session_cached_db_re, hash_re]"

section \<open>Building an event\<close>

lemma clean_keys_not_ValueError: "clean_keys r ks \<noteq> Inl (ValueError msg)"
  by (induction ks) (auto split: sum.splits elim: clean_key_val.elims)

lemma CacheOp_init_ValueError_iff:
  "(\<exists>msg. CacheOp_init r a op k = Inl (ValueError msg))
     \<longleftrightarrow> \<not> is_string k \<and> \<not> is_mapping_or_sequence k"
  by (cases k) (auto simp: CacheOp_init_def clean_keys_not_ValueError split: sum.splits)

text \<open>
  Claim C9. A string passed as the key argument is one single key: the test for a string
  comes first, so the event holds the cleaned string itself, although a string also passes
  the test for a mapping or sequence, and not the sorted list of its cleaned one-character
  substrings.
\<close>

theorem string_key_is_single_key:
  "CacheOp_init r a op (PStr s)
     = Inr \<lparr>alias = a, operation = op, key_or_keys = Key (clean_key r s)\<rparr>
   \<and> is_mapping_or_sequence (PStr s)
   \<and> CacheOp_init r a op (PStr s)
       \<noteq> Inr \<lparr>alias = a, operation = op,
               key_or_keys = Keys (sort (map (\<lambda>c. clean_key r [c]) s))\<rparr>"
  by (simp add: CacheOp_init_def)

text \<open>
  Claim C7. Building an event raises \<^verbatim>\<open>ValueError\<close> exactly when the key argument is
  neither a string nor a mapping or sequence; and then an external call of the
  instrumented method ends with that error, the state as it was: the original method has
  not run and the callback has not been called.
\<close>

theorem invalid_key_shape_raises_before_delegating:
  "((\<exists>msg. CacheOp_init r a op k = Inl (ValueError msg))
      \<longleftrightarrow> \<not> is_string k \<and> \<not> is_mapping_or_sequence k)
   \<and> (caller_self \<noteq> Some self \<and> \<not> is_string k \<and> \<not> is_mapping_or_sequence k
      \<longrightarrow> inner r func a cb self caller_self (k # rest) kwargs st
            = (Inl (ValueError ''key_or_keys must be a string, mapping, or sequence''), st))"
  by (simp add: CacheOp_init_ValueError_iff) (simp add: inner_def CacheOp_init_def)

theorem invalid_key_shape_raises_before_delegating_witness:
  "(Some (OtherObject 0) \<noteq> Some (CacheObject ''default'')
      \<and> \<not> is_string (PInt 5) \<and> \<not> is_mapping_or_sequence (PInt 5))
   \<and> (\<exists>msg. CacheOp_init Perf_rec ''default'' ''get'' (PInt 5) = Inl (ValueError msg))
   \<and> m_call \<lparr>m_name = ''get'', m_call = (\<lambda>c args kw st. (Inr PNone, Suc st))\<rparr>
        (Some (OtherObject 0)) [PInt 5] [] (0::nat) = (Inr PNone, 1)
   \<and> inner Perf_rec \<lparr>m_name = ''get'', m_call = (\<lambda>c args kw st. (Inr PNone, Suc st))\<rparr>
        ''default'' (\<lambda>ev n. n) (CacheObject ''default'') (Some (OtherObject 0))
        [PInt 5] [] (0::nat)
      = (Inl (ValueError ''key_or_keys must be a string, mapping, or sequence''), 0)"
  using invalid_key_shape_raises_before_delegating
    [of Perf_rec "''default''" "''get''" "PInt 5" "Some (OtherObject 0)"
        "CacheObject ''default''"
        "\<lparr>m_name = ''get'', m_call = (\<lambda>c args kw st. (Inr PNone, Suc st))\<rparr>"
        "\<lambda>ev n. n" "[]" "[]" "0::nat"]
  by simp

text \<open>
  Claim C10. An external call of an instrumented method with no positional argument (the
  key given by keyword, say) raises \<^verbatim>\<open>IndexError\<close> at \<^verbatim>\<open>args[0]\<close>, the state as it was:
  the original method has not run, whatever it would have done with that call.
\<close>

theorem no_positional_argument_raises_IndexError:
  assumes "caller_self \<noteq> Some self"
  shows "inner r func a cb self caller_self [] kwargs st = (Inl IndexError, st)"
  using assms by (simp add: inner_def)

theorem no_positional_argument_raises_IndexError_witness:
  "Some (OtherObject 0) \<noteq> Some (CacheObject ''default'')
   \<and> m_call \<lparr>m_name = ''get'', m_call = (\<lambda>c args kw st. (Inr (PStr ''v''), st))\<rparr>
        (Some (OtherObject 0)) [] [(''key'', PStr ''k'')] (0::nat) = (Inr (PStr ''v''), 0)
   \<and> inner Perf_rec \<lparr>m_name = ''get'', m_call = (\<lambda>c args kw st. (Inr (PStr ''v''), st))\<rparr>
        ''default'' (\<lambda>ev n. Suc n) (CacheObject ''default'') (Some (OtherObject 0))
        [] [(''key'', PStr ''k'')] (0::nat)
      = (Inl IndexError, 0)"
  using no_positional_argument_raises_IndexError
    [of "Some (OtherObject 0)" "CacheObject ''default''" Perf_rec
        "\<lparr>m_name = ''get'', m_call = (\<lambda>c args kw st. (Inr (PStr ''v''), st))\<rparr>"
        "''default''" "\<lambda>ev n. Suc n" "[(''key'', PStr ''k'')]" "0::nat"]
  by simp

lemma clean_keys_eq:
  "clean_keys r ks =
     (if list_all is_string ks then Inr (map (\<lambda>k. clean_key r (str_of k)) ks) else Inl TypeError)"
proof (induction ks)
  case Nil
  show ?case by simp
next
  case (Cons k ks)
  show ?case by (cases k) (simp_all add: Cons.IH)
qed

lemma sort_cong_mset:
  fixes xs ys :: "'a::linorder list"
  assumes "mset xs = mset ys"
  shows "sort xs = sort ys"
  by (rule properties_for_sort) (simp_all add: assms)

lemma clean_keys_permutation:
  assumes "mset xs = mset ys"
  shows "map_sum id sort (clean_keys r xs) = map_sum id sort (clean_keys r ys)"
proof -
  have s: "set xs = set ys" using assms by (rule mset_eq_setD)
  have "mset (map (\<lambda>k. clean_key r (str_of k)) xs) = mset (map (\<lambda>k. clean_key r (str_of k)) ys)"
    using assms by (metis mset_map)
  then have "sort (map (\<lambda>k. clean_key r (str_of k)) xs) = sort (map (\<lambda>k. clean_key r (str_of k)) ys)"
    by (rule sort_cong_mset)
  then show ?thesis by (simp add: clean_keys_eq list_all_iff s)
qed

lemma CacheOp_init_collection:
  assumes "\<not> is_string c" "is_mapping_or_sequence c"
  shows "CacheOp_init r a op c =
           (case map_sum id sort (clean_keys r (py_iter c)) of
              Inl e \<Rightarrow> Inl e
            | Inr ks \<Rightarrow> Inr \<lparr>alias = a, operation = op, key_or_keys = Keys ks\<rparr>)"
  using assms by (simp add: CacheOp_init_def split: sum.splits)

text \<open>
  Claim C5. Two key collections (mappings or sequences) that yield the same keys in any
  order give equal events, for every alias and operation name (and raise the same error if
  they give none); when the keys are all strings, the event holds the cleaned keys in
  ascending order.
\<close>

theorem bulk_keys_order_independent:
  assumes "\<not> is_string c1" "is_mapping_or_sequence c1"
    and "\<not> is_string c2" "is_mapping_or_sequence c2"
    and "mset (py_iter c1) = mset (py_iter c2)"
  shows "CacheOp_init r a op c1 = CacheOp_init r a op c2
         \<and> (list_all is_string (py_iter c1) \<longrightarrow>
              (\<exists>ks. CacheOp_init r a op c1
                      = Inr \<lparr>alias = a, operation = op, key_or_keys = Keys ks\<rparr>
                    \<and> sorted ks
                    \<and> mset ks = mset (map (\<lambda>k. clean_key r (str_of k)) (py_iter c1))))"
proof
  show "CacheOp_init r a op c1 = CacheOp_init r a op c2"
    unfolding CacheOp_init_collection [OF assms(1,2)] CacheOp_init_collection [OF assms(3,4)]
      clean_keys_permutation [OF assms(5), of r] ..
  show "list_all is_string (py_iter c1) \<longrightarrow>
          (\<exists>ks. CacheOp_init r a op c1 = Inr \<lparr>alias = a, operation = op, key_or_keys = Keys ks\<rparr>
             \<and> sorted ks \<and> mset ks = mset (map (\<lambda>k. clean_key r (str_of k)) (py_iter c1)))"
  proof
    assume all: "list_all is_string (py_iter c1)"
    let ?ks = "sort (map (\<lambda>k. clean_key r (str_of k)) (py_iter c1))"
    have "CacheOp_init r a op c1 = Inr \<lparr>alias = a, operation = op, key_or_keys = Keys ?ks\<rparr>"
      unfolding CacheOp_init_collection [OF assms(1,2)] clean_keys_eq using all by simp
    moreover have "sorted ?ks" by simp
    moreover have "mset ?ks = mset (map (\<lambda>k. clean_key r (str_of k)) (py_iter c1))" by simp
    ultimately show "\<exists>ks. CacheOp_init r a op c1
                        = Inr \<lparr>alias = a, operation = op, key_or_keys = Keys ks\<rparr>
             \<and> sorted ks \<and> mset ks = mset (map (\<lambda>k. clean_key r (str_of k)) (py_iter c1))"
      by blast
  qed
qed

theorem bulk_keys_order_independent_witness:
  "(\<not> is_string (PSeq [PStr ''b'', PStr ''a'']) \<and> is_mapping_or_sequence (PSeq [PStr ''b'', PStr ''a''])
    \<and> \<not> is_string (PMap [(PStr ''a'', PInt 1), (PStr ''b'', PInt 2)])
    \<and> is_mapping_or_sequence (PMap [(PStr ''a'', PInt 1), (PStr ''b'', PInt 2)])
    \<and> mset (py_iter (PSeq [PStr ''b'', PStr ''a'']))
        = mset (py_iter (PMap [(PStr ''a'', PInt 1), (PStr ''b'', PInt 2)])))
   \<and> CacheOp_init Perf_rec ''default'' ''get_many'' (PSeq [PStr ''b'', PStr ''a''])
       = CacheOp_init Perf_rec ''default'' ''get_many'' (PMap [(PStr ''a'', PInt 1), (PStr ''b'', PInt 2)])
   \<and> CacheOp_init Perf_rec ''default'' ''get_many'' (PSeq [PStr ''b'', PStr ''a''])
       = Inr \<lparr>alias = ''default'', operation = ''get_many'', key_or_keys = Keys [''a'', ''b'']\<rparr>"
proof -
  have n1: "\<not> is_string (PSeq [PStr ''b'', PStr ''a''])" by simp
  have m1: "is_mapping_or_sequence (PSeq [PStr ''b'', PStr ''a''])" by simp
  have n2: "\<not> is_string (PMap [(PStr ''a'', PInt 1), (PStr ''b'', PInt 2)])" by simp
  have m2: "is_mapping_or_sequence (PMap [(PStr ''a'', PInt 1), (PStr ''b'', PInt 2)])" by simp
  have h: "mset (py_iter (PSeq [PStr ''b'', PStr ''a'']))
        = mset (py_iter (PMap [(PStr ''a'', PInt 1), (PStr ''b'', PInt 2)]))"
    unfolding py_iter.simps list.map fst_conv mset.simps by (rule add_mset_commute)
  have e: "CacheOp_init Perf_rec ''default'' ''get_many'' (PSeq [PStr ''b'', PStr ''a''])
       = Inr \<lparr>alias = ''default'', operation = ''get_many'', key_or_keys = Keys [''a'', ''b'']\<rparr>"
    by code_simp
  note t = bulk_keys_order_independent [OF n1 m1 n2 m2 h, of Perf_rec "''default''" "''get_many''",
      THEN conjunct1]
  show ?thesis by (intro conjI n1 m1 n2 m2 h t e)
qed

section \<open>Installing and restoring the methods\<close>

lemma install_fold_apply:
  "fold (\<lambda>(name, orig_method) c. c(name := F orig_method)) (map (\<lambda>name. (name, cache name)) names) c0 x
     = (if x \<in> set names then F (cache x) else c0 x)"
  by (induction names arbitrary: c0) auto

lemma install_fold:
  "fold (\<lambda>(name, orig_method) c. c(name := F orig_method)) (map (\<lambda>name. (name, cache name)) names) c0
     = (\<lambda>x. if x \<in> set names then F (cache x) else c0 x)"
  by (rule ext) (rule install_fold_apply)

lemma CacheRecorder_enter_eq:
  "CacheRecorder_enter rc caches =
     (rc\<lparr>orig_methods := Some (map (\<lambda>name. (name, caches (rec_alias rc) name)) cache_methods)\<rparr>,
      caches(rec_alias rc :=
        (\<lambda>x. if x \<in> set cache_methods
             then Instrumented (rec_alias rc) (callback rc) (caches (rec_alias rc) x)
             else caches (rec_alias rc) x)))"
  unfolding CacheRecorder_enter_def Let_def install_fold ..

lemma map_of_orig:
  "map_of (map (\<lambda>name. (name, cache name)) names) x = (if x \<in> set names then Some (cache x) else None)"
  by (induction names) auto

lemma restore_orig:
  assumes "set ms \<subseteq> set names"
  shows "restore (map (\<lambda>name. (name, cache name)) names) ms c
           = (Inr (), (\<lambda>x. if x \<in> set ms then cache x else c x))"
  using assms
proof (induction ms arbitrary: c)
  case Nil
  show ?case by simp
next
  case (Cons m ms)
  then have "m \<in> set names" "set ms \<subseteq> set names" by auto
  then show ?case by (simp add: map_of_orig Cons.IH) auto
qed

lemma CacheRecorder_round_trip:
  assumes "CacheRecorder_enter rc caches = (rc', caches')"
  shows "CacheRecorder_exit rc' caches' = (Inr (), rc'\<lparr>orig_methods := None\<rparr>, caches)"
proof -
  let ?a = "rec_alias rc"
  have rc': "rc' = rc\<lparr>orig_methods := Some (map (\<lambda>name. (name, caches ?a name)) cache_methods)\<rparr>"
    and caches': "caches' = caches(?a :=
        (\<lambda>x. if x \<in> set cache_methods
             then Instrumented ?a (callback rc) (caches ?a x)
             else caches ?a x))"
    using assms unfolding CacheRecorder_enter_eq by simp_all
  have restored: "caches'(?a := (\<lambda>x. if x \<in> set cache_methods then caches ?a x else caches' ?a x)) = caches"
    unfolding caches' by (rule ext) auto
  show ?thesis
    unfolding CacheRecorder_exit_def
    by (simp add: rc' restore_orig restored)
qed

lemma exit_each_append:
  "exit_each exc (xs @ ys) caches =
     (case exit_each exc xs caches of
        (Inl e, caches') \<Rightarrow> (Inl e, caches')
      | (Inr u, caches') \<Rightarrow> exit_each exc ys caches')"
proof (induction xs arbitrary: caches)
  case Nil
  show ?case by simp
next
  case (Cons x xs)
  show ?case by (simp add: Cons.IH split: prod.splits sum.splits)
qed

lemma enter_each_round_trip:
  assumes "enter_each cb names recs caches = (recs', caches')"
  shows "\<exists>new. recs' = recs @ new \<and> map rec_alias new = names
           \<and> exit_each exc (rev new) caches' = (Inr (), caches)"
  using assms
proof (induction names arbitrary: recs caches)
  case Nil
  then show ?case by simp
next
  case (Cons name names)
  obtain rc1 caches1 where
    e1: "CacheRecorder_enter \<lparr>rec_alias = name, callback = cb, orig_methods = None\<rparr> caches
           = (rc1, caches1)"
    by (cases "CacheRecorder_enter \<lparr>rec_alias = name, callback = cb, orig_methods = None\<rparr> caches")
  from Cons.prems e1 have "enter_each cb names (recs @ [rc1]) caches1 = (recs', caches')"
    by simp
  from Cons.IH [OF this] obtain new where
    new: "recs' = (recs @ [rc1]) @ new" "map rec_alias new = names"
      "exit_each exc (rev new) caches' = (Inr (), caches1)"
    by blast
  have a1: "rec_alias rc1 = name" using e1 unfolding CacheRecorder_enter_eq by auto
  have x1: "CacheRecorder_exit rc1 caches1 = (Inr (), rc1\<lparr>orig_methods := None\<rparr>, caches)"
    using e1 by (rule CacheRecorder_round_trip)
  have "exit_each exc (rev (rc1 # new)) caches' = (Inr (), caches)"
    by (simp add: exit_each_append new(3) x1)
  with new(1,2) a1 show ?case by auto
qed

lemma AllCacheRecorder_exit_after_enter:
  assumes "AllCacheRecorder_enter names acr caches = (acr', caches')"
  shows "AllCacheRecorder_exit exc acr' caches' = (Inr (), acr\<lparr>recorders := Some []\<rparr>, caches)"
proof -
  obtain recs cs where e: "enter_each (all_callback acr) names [] caches = (recs, cs)"
    by (cases "enter_each (all_callback acr) names [] caches")
  from enter_each_round_trip [OF e, of exc]
  have x: "exit_each exc (rev recs) cs = (Inr (), caches)" by auto
  from assms e have "acr' = acr\<lparr>recorders := Some recs\<rparr>" "caches' = cs"
    by (simp_all add: AllCacheRecorder_enter_def)
  then show ?thesis by (simp add: AllCacheRecorder_exit_def x)
qed

text \<open>
  Claim C4. Entering the recorder of all caches and then leaving it is a round trip on the
  cache objects: the recorders are entered in the order of the names and left in the
  reverse order, leaving never raises, and afterwards every attribute of every cache
  object (the nine methods among them) is the method that \<^verbatim>\<open>getattr\<close> read on entry,
  whatever exception triple \<open>exc\<close> the \<^verbatim>\<open>with\<close> statement hands to \<^verbatim>\<open>__exit__\<close>.
\<close>

theorem acquire_release_round_trip:
  "(\<exists>recs. recorders (fst (AllCacheRecorder_enter names acr caches)) = Some recs
           \<and> map rec_alias recs = names
           \<and> exit_each exc (rev recs) (snd (AllCacheRecorder_enter names acr caches))
               = (Inr (), caches))
   \<and> AllCacheRecorder_exit exc (fst (AllCacheRecorder_enter names acr caches))
        (snd (AllCacheRecorder_enter names acr caches))
      = (Inr (), acr\<lparr>recorders := Some []\<rparr>, caches)"
proof -
  obtain recs caches' where e: "enter_each (all_callback acr) names [] caches = (recs, caches')"
    by (cases "enter_each (all_callback acr) names [] caches")
  from enter_each_round_trip [OF e, of exc]
  have n: "map rec_alias recs = names" and x: "exit_each exc (rev recs) caches' = (Inr (), caches)"
    by auto
  have en: "AllCacheRecorder_enter names acr caches = (acr\<lparr>recorders := Some recs\<rparr>, caches')"
    by (simp add: AllCacheRecorder_enter_def e)
  show ?thesis
    unfolding en by (simp add: AllCacheRecorder_exit_def n x)
qed

section \<open>Calling an instrumented method\<close>

lemma CacheOp_init_string_keyed:
  assumes "string_keyed k"
  shows "\<exists>cache_op. CacheOp_init r a op k = Inr cache_op"
proof (cases "is_string k")
  case True
  then obtain s where "k = PStr s" by (cases k) simp_all
  then show ?thesis by (simp add: CacheOp_init_def)
next
  case False
  with assms have "is_mapping_or_sequence k" "list_all is_string (py_iter k)"
    by (simp_all add: string_keyed_def)
  with False show ?thesis by (simp add: CacheOp_init_def clean_keys_eq)
qed

text \<open>
  The two branches of \<^verbatim>\<open>inner\<close>: a call from outside builds the event, hands it to the
  callback and then calls \<^verbatim>\<open>func\<close>; a call from a method of the cache object itself calls
  \<^verbatim>\<open>func\<close> and nothing else.
\<close>

lemma inner_external:
  assumes "caller_self \<noteq> Some self" "CacheOp_init r a (m_name func) k = Inr cache_op"
  shows "inner r func a cb self caller_self (k # rest) kwargs st
           = m_call func (Some self) (k # rest) kwargs (cb cache_op st)"
  using assms by (simp add: inner_def)

lemma inner_internal:
  "inner r func a cb self (Some self) args kwargs st = m_call func (Some self) args kwargs st"
  by (simp add: inner_def)

text \<open>
  A program reads and changes the contents of the backend only: when the calls of the
  own methods leave the state of the recorder alone and do not depend on it, so does the
  program.
\<close>

lemma run_backend_only:
  assumes "\<And>name args kwargs b rs rs0.
             self_call name args kwargs (b, rs)
               = (case self_call name args kwargs (b, rs0) of (res, st') \<Rightarrow> (res, (fst st', rs)))"
  shows "run self_call p (b, rs)
           = (case run self_call p (b, rs0) of (res, st') \<Rightarrow> (res, (fst st', rs)))"
proof (induction p arbitrary: b rs rs0)
  case (Return v)
  show ?case by simp
next
  case (Backend u k)
  show ?case using Backend.IH [of "k b" "u b" rs rs0] by simp
next
  case (SelfCall name args kwargs k)
  obtain res b1 x where c0: "self_call name args kwargs (b, rs0) = (res, (b1, x))"
    by (metis prod.exhaust)
  with assms [of name args kwargs b rs rs0]
  have c: "self_call name args kwargs (b, rs) = (res, (b1, rs))" by simp
  show ?case using SelfCall.IH [of "k res" b1 rs x] by (simp add: c c0)
qed

text \<open>A method of the class does not look at its caller.\<close>

lemma class_method_any_caller:
  "call_method r impl cache self depth (ClassMethod n) caller_self args kwargs st
     = call_method r impl cache self depth (ClassMethod n) caller_self' args kwargs st"
  by (cases depth) simp_all

text \<open>
  An instrumented method that is called from a method of its cache object does what the
  method it wraps does; so such a call reaches the method of the class, through all the
  instrumented methods around it, and no callback is called.
\<close>

lemma instrumented_internal:
  "call_method r impl cache self depth (Instrumented a cb func) (Some (CacheObject a)) args kwargs st
     = call_method r impl cache self depth func (Some (CacheObject a)) args kwargs st"
  by (simp add: call_callback_def inner_internal)

lemma internal_call_reaches_class:
  "installed_for a m \<Longrightarrow>
     call_method r impl cache self depth m (Some (CacheObject a)) args kwargs st
       = call_method r impl cache self depth (ClassMethod (method_name m)) caller_self args kwargs st"
proof (induction m)
  case (ClassMethod n)
  show ?case by (simp add: class_method_any_caller [of _ _ _ _ _ _ "Some (CacheObject a)" _ _ _ caller_self])
next
  case (Instrumented a' cb func)
  then have "a' = a" "installed_for a func" by simp_all
  with Instrumented.IH show ?case by (simp only: instrumented_internal method_name.simps)
qed

lemma class_method_backend_only:
  assumes "\<And>name. installed_for a (cache name)"
  shows "call_method r impl cache (CacheObject a) depth (ClassMethod n) caller_self args kwargs (b, rs)
           = (case call_method r impl cache (CacheObject a) depth (ClassMethod n) caller_self args
                     kwargs (b, rs0)
              of (res, st') \<Rightarrow> (res, (fst st', rs)))"
proof (induction depth arbitrary: n caller_self args kwargs b rs rs0)
  case 0
  show ?case by simp
next
  case (Suc depth)
  have "call_method r impl cache (CacheObject a) depth (cache name) (Some (CacheObject a))
          args' kwargs' (b', rs')
          = (case call_method r impl cache (CacheObject a) depth (cache name) (Some (CacheObject a))
                    args' kwargs' (b', rs0')
             of (res, st') \<Rightarrow> (res, (fst st', rs')))"
    for name args' kwargs' b' rs' rs0'
    unfolding internal_call_reaches_class [OF assms, where caller_self = None]
    by (rule Suc.IH)
  then show ?case
    unfolding call_method.simps by (rule run_backend_only)
qed

text \<open>
  Once the recorder has entered, a method of the class does what it did before: each of
  its calls \<^verbatim>\<open>self.name(...)\<close> now reaches the instrumented method, which takes it for an
  internal call and hands it to the method that was there before.
\<close>

lemma class_method_after_enter:
  assumes "\<And>name. installed_for a (caches a name)"
  shows "call_method r impl
           (snd (CacheRecorder_enter \<lparr>rec_alias = a, callback = cb, orig_methods = None\<rparr> caches) a)
           (CacheObject a) depth (ClassMethod n) caller_self args kwargs st
         = call_method r impl (caches a) (CacheObject a) depth (ClassMethod n) caller_self args kwargs st"
proof (induction depth arbitrary: n caller_self args kwargs st)
  case 0
  show ?case by simp
next
  case (Suc depth)
  let ?cache' = "snd (CacheRecorder_enter \<lparr>rec_alias = a, callback = cb, orig_methods = None\<rparr> caches) a"
  have "call_method r impl ?cache' (CacheObject a) depth (?cache' name) (Some (CacheObject a))
          args' kwargs' st'
        = call_method r impl (caches a) (CacheObject a) depth (caches a name) (Some (CacheObject a))
            args' kwargs' st'"
    for name args' kwargs' st'
  proof -
    have "call_method r impl ?cache' (CacheObject a) depth (?cache' name) (Some (CacheObject a))
            args' kwargs' st'
          = call_method r impl ?cache' (CacheObject a) depth (caches a name) (Some (CacheObject a))
              args' kwargs' st'"
    proof (cases "name \<in> set cache_methods")
      case True
      then have "?cache' name = Instrumented a cb (caches a name)"
        unfolding CacheRecorder_enter_eq by simp
      then show ?thesis by (simp only: instrumented_internal)
    next
      case False
      then have "?cache' name = caches a name"
        unfolding CacheRecorder_enter_eq by simp
      then show ?thesis by simp
    qed
    also have "\<dots> = call_method r impl ?cache' (CacheObject a) depth
                       (ClassMethod (method_name (caches a name))) None args' kwargs' st'"
      by (rule internal_call_reaches_class [OF assms])
    also have "\<dots> = call_method r impl (caches a) (CacheObject a) depth
                       (ClassMethod (method_name (caches a name))) None args' kwargs' st'"
      by (rule Suc.IH)
    also have "\<dots> = call_method r impl (caches a) (CacheObject a) depth (caches a name)
                       (Some (CacheObject a)) args' kwargs' st'"
      by (rule internal_call_reaches_class [OF assms, symmetric])
    finally show ?thesis .
  qed
  then have "(\<lambda>name'. call_method r impl ?cache' (CacheObject a) depth (?cache' name')
                         (Some (CacheObject a)))
               = (\<lambda>name'. call_method r impl (caches a) (CacheObject a) depth (caches a name')
                           (Some (CacheObject a)))"
    by (intro ext)
  then show ?case by simp
qed

text \<open>
  An external call of a method that the cache object holds reaches the method of the
  class, after the callback of the outermost instrumented method around it, if there is
  one, has had the event.
\<close>

lemma external_call_reaches_class:
  assumes "installed_for a m" "caller_self \<noteq> Some (CacheObject a)"
    and "CacheOp_init r a (method_name m) k = Inr cache_op"
  shows "\<exists>rs'. call_method r impl cache self depth m caller_self (k # rest) kwargs (b, rs)
           = call_method r impl cache self depth (ClassMethod (method_name m)) caller_self
               (k # rest) kwargs (b, rs')"
proof (cases m)
  case (ClassMethod n)
  then show ?thesis by auto
next
  case (Instrumented a' cb func)
  with assms(1) have a': "a' = a" and kb: "keeps_backend cb" and f: "installed_for a func"
    by simp_all
  from kb have st: "cb cache_op (b, rs) = (b, snd (cb cache_op (b, rs)))"
    by (simp add: keeps_backend_def prod_eq_iff)
  have "call_method r impl cache self depth m caller_self (k # rest) kwargs (b, rs)
          = call_method r impl cache self depth func (Some (CacheObject a)) (k # rest) kwargs
              (cb cache_op (b, rs))"
    using assms(2,3) by (simp add: Instrumented a' call_callback_def inner_def)
  also have "\<dots> = call_method r impl cache self depth (ClassMethod (method_name m)) caller_self
                     (k # rest) kwargs (b, snd (cb cache_op (b, rs)))"
    using internal_call_reaches_class [OF f, of r impl cache self depth "k # rest" kwargs
        "cb cache_op (b, rs)" caller_self] st
    by (simp add: Instrumented)
  finally show ?thesis by blast
qed

text \<open>
  Claim C3, as amended. The attributes of the cache object are the methods of its class,
  which may call each other through \<^verbatim>\<open>self\<close>, with or without instrumented methods of
  earlier recorders for the alias around them. For each of the nine method names, once
  \<^verbatim>\<open>CacheRecorder.__enter__\<close> has run, an external call of the installed method whose first
  positional argument is a string, or a mapping or sequence that yields strings only,
  builds the event, hands it once to the callback, and returns what the method that was
  there before returns for the same arguments, with the contents of the backend as that
  method leaves them.
\<close>

theorem instrumented_method_transparent:
  assumes "name \<in> set cache_methods"
    and "\<forall>name'. installed_for a (caches a name')"
    and "caller_self \<noteq> Some (CacheObject a)"
    and "string_keyed k"
  shows "\<exists>cache_op res b' rs'.
           CacheOp_init r a (method_name (caches a name)) k = Inr cache_op
           \<and> call_method r impl (caches a) (CacheObject a) depth (caches a name)
               caller_self (k # rest) kwargs (b, rs)
             = (res, (b', rs'))
           \<and> call_method r impl
               (snd (CacheRecorder_enter
                       \<lparr>rec_alias = a, callback = recorder_callback cb, orig_methods = None\<rparr>
                       caches) a)
               (CacheObject a) depth
               (snd (CacheRecorder_enter
                       \<lparr>rec_alias = a, callback = recorder_callback cb, orig_methods = None\<rparr>
                       caches) a name)
               caller_self (k # rest) kwargs (b, rs)
             = (res, (b', cb cache_op rs))"
proof -
  let ?rc = "\<lparr>rec_alias = a, callback = recorder_callback cb, orig_methods = None\<rparr>"
  let ?cache' = "snd (CacheRecorder_enter ?rc caches) a"
  let ?self = "CacheObject a"
  let ?m = "caches a name"
  let ?n = "method_name ?m"
  from assms(2) have wf: "installed_for a (caches a name')" for name' by blast
  from assms(4) obtain cache_op where c: "CacheOp_init r a ?n k = Inr cache_op"
    using CacheOp_init_string_keyed by blast
  obtain res st' where
    o: "call_method r impl (caches a) ?self depth (ClassMethod ?n) caller_self (k # rest) kwargs (b, rs)
          = (res, st')"
    by (metis prod.exhaust)
  have same: "call_method r impl (caches a) ?self depth (ClassMethod ?n) caller_self (k # rest) kwargs
            (b, rs') = (res, (fst st', rs'))" for rs'
    using class_method_backend_only
        [where cache = "caches a", OF wf, where r = r and impl = impl and depth = depth and n = ?n
           and caller_self = caller_self and args = "k # rest" and kwargs = kwargs and b = b
           and rs = rs' and ?rs0.0 = rs]
    by (simp add: o)
  from external_call_reaches_class [OF wf assms(3) c, of impl "caches a" ?self depth rest kwargs b rs]
  obtain rs' where
    "call_method r impl (caches a) ?self depth ?m caller_self (k # rest) kwargs (b, rs)
       = call_method r impl (caches a) ?self depth (ClassMethod ?n) caller_self (k # rest) kwargs
           (b, rs')"
    by blast
  then have orig: "call_method r impl (caches a) ?self depth ?m caller_self (k # rest) kwargs (b, rs)
                     = (res, (fst st', rs'))"
    by (simp add: same)
  have i: "?cache' name = Instrumented a (recorder_callback cb) ?m"
    unfolding CacheRecorder_enter_eq using assms(1) by simp
  have "call_method r impl ?cache' ?self depth (?cache' name) caller_self (k # rest) kwargs (b, rs)
          = call_method r impl ?cache' ?self depth ?m (Some ?self) (k # rest) kwargs
              (recorder_callback cb cache_op (b, rs))"
    unfolding i using assms(3) c by (simp add: call_callback_def inner_def)
  also have "\<dots> = call_method r impl ?cache' ?self depth (ClassMethod ?n) caller_self (k # rest) kwargs
                     (b, cb cache_op rs)"
    by (simp add: internal_call_reaches_class [OF wf, where caller_self = caller_self]
          recorder_callback_def)
  also have "\<dots> = call_method r impl (caches a) ?self depth (ClassMethod ?n) caller_self
                     (k # rest) kwargs (b, cb cache_op rs)"
    by (rule class_method_after_enter [where caches = caches and a = a, OF wf])
  also have "\<dots> = (res, (fst st', cb cache_op rs))" by (rule same)
  finally have "call_method r impl ?cache' ?self depth (?cache' name) caller_self (k # rest) kwargs
                  (b, rs) = (res, (fst st', cb cache_op rs))" .
  with orig c show ?thesis by blast
qed

text \<open>
  The unpatched cache objects of the sample class, and those that the recorder of an
  earlier session has left instrumented, hold such methods.
\<close>

lemma sample_caches_recorded_installed:
  "installed_for ''default'' (sample_caches_recorded ''default'' name')"
  unfolding sample_caches_recorded_def CacheRecorder_enter_eq
  by (simp add: sample_caches_def keeps_backend_def recorder_callback_def)

theorem instrumented_method_transparent_witness:
  "(''get_many'' \<in> set cache_methods
    \<and> (\<forall>name'. installed_for ''default'' (sample_caches_recorded ''default'' name'))
    \<and> None \<noteq> Some (CacheObject ''default'')
    \<and> string_keyed (PSeq [PStr ''user:1'', PStr ''x'']))
   \<and> call_method Perf_rec sample_impl (sample_caches_recorded ''default'') (CacheObject ''default'') 2
         (sample_caches_recorded ''default'' ''get_many'')
         None [PSeq [PStr ''user:1'', PStr ''x'']] [] ([(PStr ''user:1'', PInt 7)], ([], []))
       = (Inr (PMap [(PStr ''user:1'', PInt 7)]),
          ([(PStr ''user:1'', PInt 7)],
           ([\<lparr>alias = ''default'', operation = ''get_many'',
              key_or_keys = Keys [''user:#'', ''x'']\<rparr>], [])))
   \<and> call_method Perf_rec sample_impl
         (snd (CacheRecorder_enter
                 \<lparr>rec_alias = ''default'', callback = recorder_callback record_second,
                  orig_methods = None\<rparr>
                 sample_caches_recorded) ''default'')
         (CacheObject ''default'') 2
         (snd (CacheRecorder_enter
                 \<lparr>rec_alias = ''default'', callback = recorder_callback record_second,
                  orig_methods = None\<rparr>
                 sample_caches_recorded) ''default'' ''get_many'')
         None [PSeq [PStr ''user:1'', PStr ''x'']] [] ([(PStr ''user:1'', PInt 7)], ([], []))
       = (Inr (PMap [(PStr ''user:1'', PInt 7)]),
          ([(PStr ''user:1'', PInt 7)],
           ([], [\<lparr>alias = ''default'', operation = ''get_many'',
                  key_or_keys = Keys [''user:#'', ''x'']\<rparr>])))"
proof -
  have h1: "''get_many'' \<in> set cache_methods" by (simp add: cache_methods_def)
  have h2: "\<forall>name'. installed_for ''default'' (sample_caches_recorded ''default'' name')"
    by (simp add: sample_caches_recorded_installed)
  have h3: "None \<noteq> Some (CacheObject ''default'')" by simp
  have h4: "string_keyed (PSeq [PStr ''user:1'', PStr ''x''])" by (simp add: string_keyed_def)
  have ev: "CacheOp_init Perf_rec ''default''
              (method_name (sample_caches_recorded ''default'' ''get_many''))
              (PSeq [PStr ''user:1'', PStr ''x''])
              = Inr \<lparr>alias = ''default'', operation = ''get_many'',
                     key_or_keys = Keys [''user:#'', ''x'']\<rparr>"
    by code_simp
  have orig: "call_method Perf_rec sample_impl (sample_caches_recorded ''default'')
         (CacheObject ''default'') 2 (sample_caches_recorded ''default'' ''get_many'')
         None [PSeq [PStr ''user:1'', PStr ''x'']] [] ([(PStr ''user:1'', PInt 7)], ([], []))
       = (Inr (PMap [(PStr ''user:1'', PInt 7)]),
          ([(PStr ''user:1'', PInt 7)],
           ([\<lparr>alias = ''default'', operation = ''get_many'',
              key_or_keys = Keys [''user:#'', ''x'']\<rparr>], [])))"
    by code_simp
  from instrumented_method_transparent
      [where name = "''get_many''" and caches = sample_caches_recorded and a = "''default''"
         and caller_self = None and k = "PSeq [PStr ''user:1'', PStr ''x'']" and r = Perf_rec
         and impl = sample_impl and depth = 2 and rest = "[]" and kwargs = "[]"
         and b = "[(PStr ''user:1'', PInt 7)]" and rs = "([], [])"
         and cb = record_second, OF h1 h2 h3 h4]
  have "call_method Perf_rec sample_impl
         (snd (CacheRecorder_enter
                 \<lparr>rec_alias = ''default'', callback = recorder_callback record_second,
                  orig_methods = None\<rparr>
                 sample_caches_recorded) ''default'')
         (CacheObject ''default'') 2
         (snd (CacheRecorder_enter
                 \<lparr>rec_alias = ''default'', callback = recorder_callback record_second,
                  orig_methods = None\<rparr>
                 sample_caches_recorded) ''default'' ''get_many'')
         None [PSeq [PStr ''user:1'', PStr ''x'']] [] ([(PStr ''user:1'', PInt 7)], ([], []))
       = (Inr (PMap [(PStr ''user:1'', PInt 7)]),
          ([(PStr ''user:1'', PInt 7)],
           ([], [\<lparr>alias = ''default'', operation = ''get_many'',
                  key_or_keys = Keys [''user:#'', ''x'']\<rparr>])))"
    unfolding ev orig by (auto simp: record_second_def)
  with h1 h2 h3 h4 orig show ?thesis by blast
qed

text \<open>
  Claim C3 as stated fails for a sequence that holds a key which is not a string:
  \<^verbatim>\<open>get_many([1, 2])\<close> returns from the original method, and raises \<^verbatim>\<open>TypeError\<close> from the
  instrumented one, which does not reach the original.
\<close>

theorem instrumented_method_non_string_key_counterexample:
  "is_mapping_or_sequence (PSeq [PInt 1, PInt 2])
   \<and> ''get_many'' \<in> set cache_methods
   \<and> None \<noteq> Some (CacheObject ''default'')
   \<and> call_method Perf_rec sample_impl (sample_caches ''default'') (CacheObject ''default'') 2
         (sample_caches ''default'' ''get_many'')
         None [PSeq [PInt 1, PInt 2]] [] ([(PInt 1, PStr ''v'')], [] :: CacheOp list)
       = (Inr (PMap [(PInt 1, PStr ''v'')]), ([(PInt 1, PStr ''v'')], []))
   \<and> call_method Perf_rec sample_impl
         (snd (CacheRecorder_enter sample_recorder sample_caches) ''default'')
         (CacheObject ''default'') 2
         (snd (CacheRecorder_enter sample_recorder sample_caches) ''default'' ''get_many'')
         None [PSeq [PInt 1, PInt 2]] [] ([(PInt 1, PStr ''v'')], [])
       = (Inl TypeError, ([(PInt 1, PStr ''v'')], []))"
proof -
  have a: "call_method Perf_rec sample_impl (sample_caches ''default'') (CacheObject ''default'') 2
         (sample_caches ''default'' ''get_many'')
         None [PSeq [PInt 1, PInt 2]] [] ([(PInt 1, PStr ''v'')], [] :: CacheOp list)
       = (Inr (PMap [(PInt 1, PStr ''v'')]), ([(PInt 1, PStr ''v'')], []))"
    by code_simp
  have b: "call_method Perf_rec sample_impl
         (snd (CacheRecorder_enter sample_recorder sample_caches) ''default'')
         (CacheObject ''default'') 2
         (snd (CacheRecorder_enter sample_recorder sample_caches) ''default'' ''get_many'')
         None [PSeq [PInt 1, PInt 2]] [] ([(PInt 1, PStr ''v'')], [])
       = (Inl TypeError, ([(PInt 1, PStr ''v'')], []))"
    by code_simp
  show ?thesis using a b by (simp add: cache_methods_def)
qed

section \<open>Closing a session\<close>





lemma exit_after_enter:
  assumes "PerformanceRecorder_enter names pr0 w0 = (pr, w1)"
  shows "PerformanceRecorder_exit None pr (w1\<lparr>w_backend := b, w_record := rec\<rparr>)
           = save_or_assert (pr\<lparr>cache_recorder := (cache_recorder pr0)\<lparr>recorders := Some []\<rparr>\<rparr>)
               (w0\<lparr>w_backend := b, w_record := rec\<rparr>)"
    and "records_file pr = Some (KVFile_init (file_name pr0) (w_disk w0))"
    and "record_name pr = record_name pr0"
proof -
  obtain acr' caches' where
    e: "AllCacheRecorder_enter names (cache_recorder pr0) (w_caches w0)
          = (acr', caches')"
    by (cases "AllCacheRecorder_enter names (cache_recorder pr0) (w_caches w0)")
  from assms e have pr: "pr = pr0\<lparr>cache_recorder := acr',
        records_file := Some (KVFile_init (file_name pr0) (w_disk w0))\<rparr>"
    and w1: "w1 = w0\<lparr>w_caches := caches'\<rparr>"
    by (simp_all add: PerformanceRecorder_enter_def)
  show "PerformanceRecorder_exit None pr (w1\<lparr>w_backend := b, w_record := rec\<rparr>)
           = save_or_assert (pr\<lparr>cache_recorder := (cache_recorder pr0)\<lparr>recorders := Some []\<rparr>\<rparr>)
               (w0\<lparr>w_backend := b, w_record := rec\<rparr>)"
    by (simp add: PerformanceRecorder_exit_def pr w1 AllCacheRecorder_exit_after_enter [OF e])
  show "records_file pr = Some (KVFile_init (file_name pr0) (w_disk w0))"
    by (simp add: pr)
  show "record_name pr = record_name pr0"
    by (simp add: pr)
qed

text \<open>
  Claim C2. A session is entered and its body ends normally, with any record \<open>rec\<close> and any
  contents of the backends. If the store loaded on entry holds a recording under the
  session's name and it differs from \<open>rec\<close>, then \<^verbatim>\<open>__exit__\<close> raises \<^verbatim>\<open>AssertionError\<close> with
  the message that ends in the record name, and the disk is as it was on entry: the stored
  recording is still the old one.
\<close>

theorem mismatch_raises_and_keeps_snapshot:
  assumes "PerformanceRecorder_enter names pr0 w0 = (pr, w1)"
    and "KVFile_get (KVFile_init (file_name pr0) (w_disk w0)) (record_name pr0) = Some orig"
    and "rec \<noteq> orig"
  shows "\<exists>pr' w'.
           PerformanceRecorder_exit None pr (w1\<lparr>w_backend := b, w_record := rec\<rparr>)
             = (Inl (AssertionError (''Performance record did not match for '' @ record_name pr0)),
                pr', w')
           \<and> w_disk w' = w_disk w0
           \<and> KVFile_get (KVFile_init (file_name pr0) (w_disk w')) (record_name pr0) = Some orig"
  unfolding exit_after_enter(1) [OF assms(1)]
  using assms(2,3)
  by (simp add: save_or_assert_def py_assert_def exit_after_enter(2,3) [OF assms(1)])










lemma sample_stored:
  "KVFile_get (KVFile_init (file_name sample_session) (w_disk sample_world))
     (record_name sample_session) = Some [(''cache|get'', Key ''user:#'')]"
  by (simp add: sample_session_def sample_world_def PerformanceRecorder_init_def KVFile_get_def
        KVFile_init_def kv_parse_def)

theorem mismatch_raises_and_keeps_snapshot_witness:
  "(KVFile_get (KVFile_init (file_name sample_session) (w_disk sample_world))
      (record_name sample_session) = Some [(''cache|get'', Key ''user:#'')]
    \<and> [(''cache|set'', Key ''user:#'')] \<noteq> [(''cache|get'', Key ''user:#'')])
   \<and> fst (PerformanceRecorder_exit None
             (fst (PerformanceRecorder_enter [''default''] sample_session sample_world))
             ((snd (PerformanceRecorder_enter [''default''] sample_session sample_world))
                \<lparr>w_backend := 1, w_record := [(''cache|set'', Key ''user:#'')]\<rparr>))
       = Inl (AssertionError ''Performance record did not match for T.test_a'')
   \<and> w_disk (snd (snd (PerformanceRecorder_exit None
             (fst (PerformanceRecorder_enter [''default''] sample_session sample_world))
             ((snd (PerformanceRecorder_enter [''default''] sample_session sample_world))
                \<lparr>w_backend := 1, w_record := [(''cache|set'', Key ''user:#'')]\<rparr>))))
       ''tests/test_a.perf.yml''
       = Some [(''T.test_a'', [(''cache|get'', Key ''user:#'')])]"
proof -
  have e: "PerformanceRecorder_enter [''default''] sample_session sample_world
             = (fst (PerformanceRecorder_enter [''default''] sample_session sample_world),
                snd (PerformanceRecorder_enter [''default''] sample_session sample_world))"
    by simp
  have d: "[(''cache|set'', Key ''user:#'')] \<noteq> [(''cache|get'', Key ''user:#'')]" by simp
  have n: "record_name sample_session = ''T.test_a''"
    by (simp add: sample_session_def PerformanceRecorder_init_def)
  have k: "w_disk sample_world ''tests/test_a.perf.yml''
             = Some [(''T.test_a'', [(''cache|get'', Key ''user:#'')])]"
    by (simp add: sample_world_def)
  from mismatch_raises_and_keeps_snapshot [OF e sample_stored d, of 1]
  obtain pr' w' where
    "PerformanceRecorder_exit None
       (fst (PerformanceRecorder_enter [''default''] sample_session sample_world))
       ((snd (PerformanceRecorder_enter [''default''] sample_session sample_world))
          \<lparr>w_backend := 1, w_record := [(''cache|set'', Key ''user:#'')]\<rparr>)
     = (Inl (AssertionError (''Performance record did not match for '' @ record_name sample_session)),
        pr', w')"
    "w_disk w' = w_disk sample_world"
    by blast
  then show ?thesis using sample_stored d n k by simp
qed



section \<open>Names of sessions\<close>

lemma str_nat_nonempty: "str_nat n \<noteq> []"
  by (subst str_nat.simps) simp

lemma digit_char_inj:
  assumes "char_of (48 + a :: nat) = (char_of (48 + b :: nat) :: char)" "a < 10" "b < 10"
  shows "a = b"
proof -
  from assms(1) have "(of_char (char_of (48 + a) :: char) :: nat) = of_char (char_of (48 + b) :: char)"
    by simp
  with assms(2,3) show ?thesis by simp
qed

lemma str_nat_small: "n < 10 \<Longrightarrow> str_nat n = [char_of (48 + n)]"
  by (subst str_nat.simps) simp

lemma str_nat_large:
  "\<not> n < 10 \<Longrightarrow> str_nat n = str_nat (n div 10) @ [char_of (48 + n mod 10)]"
  by (subst str_nat.simps) simp

lemma str_nat_inj: "str_nat m = str_nat n \<Longrightarrow> m = n"
proof (induction m arbitrary: n rule: str_nat.induct)
  case (1 m)
  show ?case
  proof (cases "m < 10")
    case True
    note m = this
    show ?thesis
    proof (cases "n < 10")
      case True
      from "1.prems" [unfolded str_nat_small [OF m] str_nat_small [OF True]]
      have "char_of (48 + m) = (char_of (48 + n) :: char)" by simp
      then show ?thesis using m True by (rule digit_char_inj)
    next
      case False
      from "1.prems" [unfolded str_nat_small [OF m] str_nat_large [OF False]]
      have "str_nat (n div 10) = []" by simp
      then show ?thesis by (simp add: str_nat_nonempty)
    qed
  next
    case False
    note m = this
    show ?thesis
    proof (cases "n < 10")
      case True
      from "1.prems" [unfolded str_nat_large [OF m] str_nat_small [OF True]]
      have "str_nat (m div 10) = []" by simp
      then show ?thesis by (simp add: str_nat_nonempty)
    next
      case False
      from "1.prems" [unfolded str_nat_large [OF m] str_nat_large [OF False]]
      have e: "str_nat (m div 10) = str_nat (n div 10)"
        and c: "char_of (48 + m mod 10) = (char_of (48 + n mod 10) :: char)"
        by simp_all
      from "1.IH" [OF m e] have "m div 10 = n div 10" .
      moreover from c have "m mod 10 = n mod 10" by (rule digit_char_inj) simp_all
      ultimately show ?thesis by (metis div_mult_mod_eq)
    qed
  qed
qed

lemma char_of_50: "(char_of (50::nat) :: char) = CHR ''2''"
  by code_simp

lemma char_of_51: "(char_of (51::nat) :: char) = CHR ''3''"
  by code_simp

lemma str_nat_2: "str_nat (Suc (Suc 0)) = ''2''"
  by (simp add: str_nat.simps char_of_50)

lemma str_nat_3: "str_nat (Suc (Suc (Suc 0))) = ''3''"
  by (simp add: str_nat.simps char_of_51)

lemma record_fn_again:
  "record_fn td None None (Some (derived_name td, c))
     = ((fst (fst (record_fn td None None None)),
         derived_name td @ ''.'' @ str_nat (c + 1)), Some (derived_name td, c + 1))"
  by (simp add: record_fn_def Let_def)

lemma record_fn_first:
  assumes "map_option fst rc \<noteq> Some (derived_name td)"
  shows "record_fn td None None rc
     = ((fst (fst (record_fn td None None None)), derived_name td), Some (derived_name td, 1))"
  using assms by (cases rc) (auto simp: record_fn_def Let_def)

lemma session_names_again:
  assumes "\<forall>td \<in> set tds. derived_name td = n"
  shows "session_names tds (Some (n, c))
     = map (\<lambda>i. n @ ''.'' @ str_nat i) [c + 1..<c + 1 + length tds]"
  using assms
proof (induction tds arbitrary: c)
  case Nil
  show ?case by simp
next
  case (Cons td tds)
  have n: "derived_name td = n" using Cons.prems by simp
  have "[c + 1..<c + 1 + length (td # tds)] = (c + 1) # [c + 1 + 1..<c + 1 + 1 + length tds]"
    by (simp add: upt_rec)
  then show ?case
    using Cons.IH [of "c + 1"] Cons.prems record_fn_again [of td c]
    by (simp add: n)
qed

text \<open>
  Claim C8, as amended. When sessions are opened one directly after the other for tests
  with one derived name \<open>n\<close>, by \<^verbatim>\<open>record()\<close> without arguments, on a thread whose
  \<^verbatim>\<open>record_current\<close> does not already hold that name, the first gets the derived name and
  the later ones get it with the suffixes \<^verbatim>\<open>.2\<close>, \<^verbatim>\<open>.3\<close>, ... in turn; these names are all
  different.
\<close>

theorem consecutive_sessions_suffixed:
  assumes "tds \<noteq> []"
    and "\<forall>td \<in> set tds. derived_name td = n"
    and "map_option fst rc \<noteq> Some n"
  shows "session_names tds rc
           = n # map (\<lambda>i. n @ ''.'' @ str_nat i) [2..<length tds + 1]
         \<and> distinct (session_names tds rc)"
proof -
  from assms(1) obtain td tds' where tds: "tds = td # tds'" by (cases tds) auto
  have n: "derived_name td = n" and rest: "\<forall>td \<in> set tds'. derived_name td = n"
    using assms(2) tds by simp_all
  have first: "map_option fst rc \<noteq> Some (derived_name td)" using assms(3) n by simp
  have names: "session_names tds rc
           = n # map (\<lambda>i. n @ ''.'' @ str_nat i) [2..<length tds + 1]"
  proof -
    have len: "1 + 1 + length tds' = length tds + 1" by (simp add: tds)
    have "[1 + 1..<1 + 1 + length tds'] = [2..<length tds + 1]"
      unfolding len by (simp only: one_add_one)
    with session_names_again [OF rest, of 1]
    have "session_names tds' (Some (n, 1))
            = map (\<lambda>i. n @ ''.'' @ str_nat i) [2..<length tds + 1]"
      by simp
    then show ?thesis
      unfolding tds session_names.simps record_fn_first [OF first] by (simp add: n)
  qed
  have "inj_on (\<lambda>i. n @ ''.'' @ str_nat i) (set [2..<length tds + 1])"
    by (rule inj_onI) (simp add: str_nat_inj)
  then have "distinct (map (\<lambda>i. n @ ''.'' @ str_nat i) [2..<length tds + 1])"
    by (simp add: distinct_map)
  moreover have "n \<notin> set (map (\<lambda>i. n @ ''.'' @ str_nat i) [2..<length tds + 1])"
    by auto
  ultimately show ?thesis unfolding names by simp
qed

theorem consecutive_sessions_suffixed_witness:
  "[\<lparr>file_path = ''tests/test_a.py'', class_name = Some ''T'', test_name = ''test_a''\<rparr>,
    \<lparr>file_path = ''tests/test_a.py'', class_name = Some ''T'', test_name = ''test_a''\<rparr>,
    \<lparr>file_path = ''tests/test_b.py'', class_name = Some ''T'', test_name = ''test_a''\<rparr>] \<noteq> []
   \<and> map derived_name
        [\<lparr>file_path = ''tests/test_a.py'', class_name = Some ''T'', test_name = ''test_a''\<rparr>,
         \<lparr>file_path = ''tests/test_a.py'', class_name = Some ''T'', test_name = ''test_a''\<rparr>,
         \<lparr>file_path = ''tests/test_b.py'', class_name = Some ''T'', test_name = ''test_a''\<rparr>]
       = [''T.test_a'', ''T.test_a'', ''T.test_a'']
   \<and> map_option fst (None :: record_current) \<noteq> Some ''T.test_a''
   \<and> session_names
        [\<lparr>file_path = ''tests/test_a.py'', class_name = Some ''T'', test_name = ''test_a''\<rparr>,
         \<lparr>file_path = ''tests/test_a.py'', class_name = Some ''T'', test_name = ''test_a''\<rparr>,
         \<lparr>file_path = ''tests/test_b.py'', class_name = Some ''T'', test_name = ''test_a''\<rparr>] None
      = [''T.test_a'', ''T.test_a.2'', ''T.test_a.3'']
   \<and> distinct (session_names
        [\<lparr>file_path = ''tests/test_a.py'', class_name = Some ''T'', test_name = ''test_a''\<rparr>,
         \<lparr>file_path = ''tests/test_a.py'', class_name = Some ''T'', test_name = ''test_a''\<rparr>,
         \<lparr>file_path = ''tests/test_b.py'', class_name = Some ''T'', test_name = ''test_a''\<rparr>] None)"
proof -
  let ?tds = "[\<lparr>file_path = ''tests/test_a.py'', class_name = Some ''T'', test_name = ''test_a''\<rparr>,
    \<lparr>file_path = ''tests/test_a.py'', class_name = Some ''T'', test_name = ''test_a''\<rparr>,
    \<lparr>file_path = ''tests/test_b.py'', class_name = Some ''T'', test_name = ''test_a''\<rparr>]"
  have ne: "?tds \<noteq> []" by simp
  have d: "\<forall>td \<in> set ?tds. derived_name td = ''T.test_a''"
    by (simp add: derived_name_def)
  have h: "map_option fst (None :: record_current) \<noteq> Some ''T.test_a''"
    by simp
  have e: "session_names ?tds None = [''T.test_a'', ''T.test_a.2'', ''T.test_a.3'']"
    by (simp add: record_fn_def derived_name_def Let_def str_nat_2 str_nat_3)
  from consecutive_sessions_suffixed [OF ne d h, THEN conjunct2]
  have "distinct (session_names ?tds None)" .
  moreover have "map derived_name ?tds = [''T.test_a'', ''T.test_a'', ''T.test_a'']"
    by (simp add: derived_name_def)
  ultimately show ?thesis using ne h e by blast
qed

text \<open>
  Claim C8 as stated fails when a session with another derived name is opened in between:
  \<^verbatim>\<open>record_current\<close> remembers the latest name only, so the third session below has the
  derived name of the first, is not suffixed, and uses the same name.
\<close>

theorem interleaved_sessions_counterexample:
  "session_names
     [\<lparr>file_path = ''tests/test_a.py'', class_name = Some ''T'', test_name = ''test_a''\<rparr>,
      \<lparr>file_path = ''tests/test_a.py'', class_name = Some ''T'', test_name = ''test_b''\<rparr>,
      \<lparr>file_path = ''tests/test_a.py'', class_name = Some ''T'', test_name = ''test_a''\<rparr>] None
     = [''T.test_a'', ''T.test_b'', ''T.test_a'']
   \<and> \<not> distinct (session_names
     [\<lparr>file_path = ''tests/test_a.py'', class_name = Some ''T'', test_name = ''test_a''\<rparr>,
      \<lparr>file_path = ''tests/test_a.py'', class_name = Some ''T'', test_name = ''test_b''\<rparr>,
      \<lparr>file_path = ''tests/test_a.py'', class_name = Some ''T'', test_name = ''test_a''\<rparr>] None)"
proof -
  have e: "session_names
     [\<lparr>file_path = ''tests/test_a.py'', class_name = Some ''T'', test_name = ''test_a''\<rparr>,
      \<lparr>file_path = ''tests/test_a.py'', class_name = Some ''T'', test_name = ''test_b''\<rparr>,
      \<lparr>file_path = ''tests/test_a.py'', class_name = Some ''T'', test_name = ''test_a''\<rparr>] None
     = [''T.test_a'', ''T.test_b'', ''T.test_a'']"
    by code_simp
  show ?thesis unfolding e by simp
qed

section \<open>Cleaning a key twice\<close>

lemma re_sub_no_match:
  assumes "\<And>u v n. s = u @ v \<Longrightarrow> match_at w re (rev u @ pre) v \<noteq> Some (Suc n)"
  shows "re_sub w re pre s = s"
  using assms
proof (induction s arbitrary: pre)
  case Nil
  show ?case by simp
next
  case (Cons c cs)
  have head: "match_at w re pre (c # cs) \<noteq> Some (Suc n)" for n
    using Cons.prems [of "[]" "c # cs" n] by simp
  have "match_at w re (rev u @ c # pre) v \<noteq> Some (Suc n)" if "cs = u @ v" for u v n
    using Cons.prems [of "c # u" v n] that by simp
  then have tail: "re_sub w re (c # pre) cs = cs" by (rule Cons.IH)
  show ?case
  proof (cases "match_at w re pre (c # cs)")
    case None
    then show ?thesis by (simp add: tail)
  next
    case (Some m)
    with head have "m = 0" by (cases m) auto
    with Some show ?thesis by (simp add: tail)
  qed
qed

lemma re_sub_prefix_kept:
  "CHR ''#'' \<notin> set (take j (re_sub w re pre s)) \<Longrightarrow> take j (re_sub w re pre s) = take j s"
proof (induction w re pre s arbitrary: j rule: re_sub.induct)
  case (1 w re pre)
  show ?case by simp
next
  case (2 w re pre c cs)
  show ?case
  proof (cases j)
    case 0
    then show ?thesis by simp
  next
    case (Suc j')
    show ?thesis
    proof (cases "match_at w re pre (c # cs)")
      case None
      with "2.prems" Suc "2.IH"(1) [OF None, of j'] show ?thesis by simp
    next
      case (Some m)
      show ?thesis
      proof (cases m)
        case 0
        with "2.prems" Suc Some "2.IH"(2) [of m j'] show ?thesis by simp
      next
        case (Suc n)
        with "2.prems" \<open>j = Suc j'\<close> Some show ?thesis by simp
      qed
    qed
  qed
qed

lemma re_sub_suffix:
  "re_sub w re pre s = u @ v \<Longrightarrow> \<exists>pre' t s'. s = t @ s' \<and> v = re_sub w re pre' s'"
proof (induction w re pre s arbitrary: u rule: re_sub.induct)
  case (1 w re pre)
  then have "v = re_sub w re pre []" by simp
  then show ?case by blast
next
  case (2 w re pre c cs)
  show ?case
  proof (cases u)
    case Nil
    with "2.prems" have "c # cs = [] @ (c # cs) \<and> v = re_sub w re pre (c # cs)" by simp
    then show ?thesis by blast
  next
    case (Cons x u')
    show ?thesis
    proof (cases "match_at w re pre (c # cs)")
      case None
      with "2.prems" Cons have "re_sub w re (c # pre) cs = u' @ v" by auto
      from "2.IH"(1) [OF None this] obtain pre' t s' where "cs = t @ s'" "v = re_sub w re pre' s'"
        by blast
      then have "c # cs = (c # t) @ s' \<and> v = re_sub w re pre' s'" by simp
      then show ?thesis by blast
    next
      case (Some m)
      show ?thesis
      proof (cases m)
        case 0
        with "2.prems" Cons Some have "re_sub w re (c # pre) cs = u' @ v" by auto
        from "2.IH"(2) [OF Some 0 this] obtain pre' t s' where
          "cs = t @ s'" "v = re_sub w re pre' s'"
          by blast
        then have "c # cs = (c # t) @ s' \<and> v = re_sub w re pre' s'" by simp
        then show ?thesis by blast
      next
        case (Suc n)
        with "2.prems" Cons Some
        have "re_sub w re (rev (take n cs) @ c # pre) (drop n cs) = u' @ v" by auto
        from "2.IH"(3) [OF Some Suc this] obtain pre' t s' where
          "drop n cs = t @ s'" "v = re_sub w re pre' s'"
          by blast
        then have "c # cs = (c # take n cs @ t) @ s' \<and> v = re_sub w re pre' s'"
          by (metis append_Cons append_assoc append_take_drop_id)
        then show ?thesis by blast
      qed
    qed
  qed
qed

lemma hash_not_in_cls: "\<not> in_cls c CHR ''#''"
  by (cases c) (simp_all add: is_digit_def less_eq_char_def)

lemma plain_match_width:
  "plain re \<Longrightarrow> match_at w re p v = Some n
     \<Longrightarrow> n = width re \<and> n \<le> length v \<and> CHR ''#'' \<notin> set (take n v)"
proof (induction re arbitrary: p v n)
  case Nil
  then show ?case by simp
next
  case (Cons i re)
  show ?case
  proof (cases i)
    case (Rep m c)
    with Cons.prems have pl: "plain re" and len: "m \<le> length v"
      and cls: "list_all (in_cls c) (take m v)"
      by (simp_all split: if_splits)
    from Cons.prems Rep len cls obtain k where
      k: "match_at w re (rev (take m v) @ p) (drop m v) = Some k" and n: "n = m + k"
      by auto
    from Cons.IH [OF pl k] have ih: "k = width re" "k \<le> length (drop m v)"
      "CHR ''#'' \<notin> set (take k (drop m v))"
      by blast+
    have "CHR ''#'' \<notin> set (take m v)"
      using cls hash_not_in_cls by (auto simp: list_all_iff)
    moreover have "take n v = take m v @ take k (drop m v)"
      unfolding n by (rule take_add)
    ultimately have "CHR ''#'' \<notin> set (take n v)" using ih(3) by simp
    with ih(1,2) len n Rep show ?thesis by simp
  next
    case (Lit x)
    with Cons.prems obtain ys where v: "v = x # ys" and x: "x \<noteq> CHR ''#''" and pl: "plain re"
      by (cases v) (simp_all split: if_splits)
    from Cons.prems Lit v obtain k where
      k: "match_at w re (x # p) ys = Some k" and n: "n = Suc k"
      by auto
    from Cons.IH [OF pl k] show ?thesis using Lit v x n by auto
  qed (use Cons.prems in simp_all)
qed

lemma plain_match_take:
  "plain re \<Longrightarrow> match_at w re p v = match_at w' re p' (take (width re) v)"
proof (induction re arbitrary: p p' v)
  case Nil
  show ?case by simp
next
  case (Cons i re)
  note IH = Cons.IH
  show ?case
  proof (cases i)
    case (Rep m c)
    with Cons.prems have pl: "plain re" by simp
    have d: "drop m (take (m + width re) v) = take (width re) (drop m v)"
      by (simp add: drop_take)
    have t: "take m (take (m + width re) v) = take m v" by simp
    have l: "m \<le> length (take (m + width re) v) \<longleftrightarrow> m \<le> length v" by simp
    have "match_at w re (rev (take m v) @ p) (drop m v)
            = match_at w' re (rev (take m v) @ p') (take (width re) (drop m v))"
      by (rule IH [OF pl])
    then show ?thesis unfolding Rep match_at.simps width.simps t d l by simp
  next
    case (Lit x)
    with Cons.prems have pl: "plain re" by simp
    show ?thesis
    proof (cases v)
      case Nil
      then show ?thesis by (simp add: Lit)
    next
      case (Cons y ys)
      have "match_at w re (y # p) ys = match_at w' re (y # p') (take (width re) ys)"
        by (rule IH [OF pl])
      then show ?thesis by (auto simp: Lit Cons)
    qed
  qed (use Cons.prems in simp_all)
qed

lemma plain_gone:
  assumes "plain re" "0 < width re" "re_sub w re pre s = u @ v"
  shows "match_at w' re p v = None"
proof (rule ccontr)
  assume "match_at w' re p v \<noteq> None"
  then obtain n where n: "match_at w' re p v = Some n" by auto
  from plain_match_width [OF assms(1) n]
  have nw: "n = width re" and len: "n \<le> length v" and free: "CHR ''#'' \<notin> set (take n v)"
    by blast+
  from re_sub_suffix [OF assms(3)] obtain pre' s' where
    v: "v = re_sub w re pre' s'"
    by blast
  from free have tk: "take n v = take n s'" unfolding v by (rule re_sub_prefix_kept)
  have "match_at w re pre' s' = match_at w' re p (take (width re) s')"
    by (rule plain_match_take [OF assms(1)])
  also have "\<dots> = match_at w' re p (take (width re) v)" using tk nw by simp
  also have "\<dots> = match_at w' re p v" by (rule plain_match_take [OF assms(1), symmetric])
  finally have m: "match_at w re pre' s' = Some n" using n by simp
  from assms(2) nw have "0 < n" by simp
  then obtain k where k: "n = Suc k" by (auto simp: gr0_conv_Suc)
  from tk len k have "s' \<noteq> []" by auto
  then obtain c cs where s': "s' = c # cs" by (cases s') auto
  have "v = CHR ''#'' # re_sub w re (rev (take k cs) @ c # pre') (drop k cs)"
    unfolding v s' using m k s' by simp
  with free k show False by simp
qed

lemma plain_absent_kept:
  assumes "plain re"
    and "\<And>u v p. t = u @ v \<Longrightarrow> match_at w' re p v = None"
    and "re_sub w2 re2 pre2 t = u @ v"
  shows "match_at w' re p v = None"
proof (rule ccontr)
  assume "match_at w' re p v \<noteq> None"
  then obtain n where n: "match_at w' re p v = Some n" by auto
  from plain_match_width [OF assms(1) n]
  have nw: "n = width re" and free: "CHR ''#'' \<notin> set (take n v)"
    by blast+
  from re_sub_suffix [OF assms(3)] obtain pre' x t' where
    t: "t = x @ t'" and v: "v = re_sub w2 re2 pre' t'"
    by blast
  from free have tk: "take n v = take n t'" unfolding v by (rule re_sub_prefix_kept)
  have "match_at w' re p t' = match_at w' re p (take (width re) t')"
    by (rule plain_match_take [OF assms(1)])
  also have "\<dots> = match_at w' re p (take (width re) v)" using tk nw by simp
  also have "\<dots> = match_at w' re p v" by (rule plain_match_take [OF assms(1), symmetric])
  finally have "match_at w' re p t' = Some n" using n by simp
  with assms(2) [OF t, of p] show False by simp
qed

lemma takeWhile_run:
  assumes "m \<le> length v" "list_all P (take m v)"
  shows "m \<le> length (takeWhile P v)"
proof -
  have "takeWhile P (take m v @ drop m v) = take m v @ takeWhile P (drop m v)"
    using assms(2) by (intro takeWhile_append2) (simp add: list_all_iff)
  then have "length (takeWhile P v) = length (take m v) + length (takeWhile P (drop m v))"
    by simp
  with assms(1) show ?thesis by simp
qed

lemma has_run_here: "0 < n \<Longrightarrow> n \<le> length (takeWhile (in_cls c) v) \<Longrightarrow> has_run n c v"
  by (cases v) simp_all

lemma has_run_append: "has_run n c v \<Longrightarrow> has_run n c (u @ v)"
  by (induction u) simp_all

lemma hex_is_lower_alnum: "in_cls Hex x \<Longrightarrow> in_cls LowerAlnum x"
  by (auto simp: less_eq_char_def)

lemma session_cache_match_run:
  "match_at w session_cache_re p v = Some n \<Longrightarrow> 32 \<le> length (takeWhile (in_cls LowerAlnum) v)"
  unfolding session_cache_re_def
  by (auto split: if_splits intro: takeWhile_run)

lemma session_cached_db_match_run:
  "match_at w session_cached_db_re p v = Some n \<Longrightarrow> 32 \<le> length (takeWhile (in_cls LowerAlnum) v)"
  unfolding session_cached_db_re_def
  by (auto split: if_splits intro: takeWhile_run)

lemma hash_match_run:
  assumes "match_at w hash_re p v = Some n"
  shows "32 \<le> length (takeWhile (in_cls LowerAlnum) v)"
proof -
  from assms have "32 \<le> length v" "list_all (in_cls Hex) (take 32 v)"
    unfolding hash_re_def by (auto split: if_splits)
  moreover from this(2) have "list_all (in_cls LowerAlnum) (take 32 v)"
    unfolding list_all_iff using hex_is_lower_alnum by blast
  ultimately show ?thesis by (intro takeWhile_run)
qed

lemma re_sub_without_run:
  assumes "\<not> has_run 32 LowerAlnum s"
    and "\<And>p v n. match_at w re p v = Some n \<Longrightarrow> 32 \<le> length (takeWhile (in_cls LowerAlnum) v)"
  shows "re_sub w re pre s = s"
proof (rule re_sub_no_match)
  fix u v n
  assume s: "s = u @ v"
  show "match_at w re (rev u @ pre) v \<noteq> Some (Suc n)"
  proof
    assume "match_at w re (rev u @ pre) v = Some (Suc n)"
    then have "32 \<le> length (takeWhile (in_cls LowerAlnum) v)" by (rule assms(2))
    then have "has_run 32 LowerAlnum v" by (intro has_run_here) simp_all
    then have "has_run 32 LowerAlnum (u @ v)" by (rule has_run_append)
    with assms(1) s show False by simp
  qed
qed

lemma integer_match_digit:
  "match_at w integer_re p v = Some n \<Longrightarrow> 0 < n \<and> v \<noteq> [] \<and> is_digit (hd v)"
  unfolding integer_re_def
  by (cases v) (auto simp: Let_def split: if_splits)

lemma integer_no_match_head: "match_at w integer_re p (c # cs) = None \<Longrightarrow> \<not> is_digit c"
  unfolding integer_re_def by (auto simp: Let_def split: if_splits)

lemma integer_re_output: "x \<in> set (re_sub w integer_re pre s) \<Longrightarrow> \<not> is_digit x"
proof (induction w integer_re pre s rule: re_sub.induct)
  case (1 w pre)
  then show ?case by simp
next
  case (2 w pre c cs)
  show ?case
  proof (cases "match_at w integer_re pre (c # cs)")
    case None
    with "2.prems" "2.hyps"(1) [OF None] integer_no_match_head [OF None] show ?thesis by auto
  next
    case (Some m)
    show ?thesis
    proof (cases m)
      case 0
      with Some integer_match_digit [of w pre "c # cs" m] show ?thesis by simp
    next
      case (Suc n)
      have "\<not> is_digit CHR ''#''" by (simp add: is_digit_def less_eq_char_def)
      with "2.prems" Some Suc "2.hyps"(3) [OF Some Suc] show ?thesis by auto
    qed
  qed
qed

lemma integer_re_fixed:
  assumes "\<And>x. x \<in> set s \<Longrightarrow> \<not> is_digit x"
  shows "re_sub w integer_re pre s = s"
proof (rule re_sub_no_match)
  fix u v n
  assume s: "s = u @ v"
  show "match_at w integer_re (rev u @ pre) v \<noteq> Some (Suc n)"
  proof
    assume "match_at w integer_re (rev u @ pre) v = Some (Suc n)"
    then have "v \<noteq> []" "is_digit (hd v)" using integer_match_digit by blast+
    then have "hd v \<in> set s" "is_digit (hd v)" using s by simp_all
    with assms show False by blast
  qed
qed

lemma plain_uuid: "plain uuid_re" "width uuid_re = 36"
  by (simp_all add: uuid_re_def)

lemma uuid_re_fixed:
  "re_sub w uuid_re pre (re_sub w2 integer_re pre2 (re_sub w3 uuid_re pre3 s))
     = re_sub w2 integer_re pre2 (re_sub w3 uuid_re pre3 s)"
proof (rule re_sub_no_match)
  fix u v n
  assume "re_sub w2 integer_re pre2 (re_sub w3 uuid_re pre3 s) = u @ v"
  then have "match_at w uuid_re (rev u @ pre) v = None"
  proof (rule plain_absent_kept [OF plain_uuid(1), rotated])
    fix u' v' p
    assume "re_sub w3 uuid_re pre3 s = u' @ v'"
    then show "match_at w uuid_re p v' = None"
      by (intro plain_gone [OF plain_uuid(1)]) (simp_all add: plain_uuid(2))
  qed
  then show "match_at w uuid_re (rev u @ pre) v \<noteq> Some (Suc n)" by simp
qed

lemma fold_fixed:
  assumes "\<And>re. re \<in> set res \<Longrightarrow> f re x = x"
  shows "fold f res x = x"
  using assms by (induction res) simp_all

text \<open>
  A scan changes the subject exactly when the pattern matches somewhere in it, for a
  pattern whose matches are longer than one character: the scan then makes it shorter.
\<close>

lemma match_at_le: "match_at w re pre v = Some n \<Longrightarrow> n \<le> length v"
proof (induction re arbitrary: pre v n)
  case Nil
  then show ?case by simp
next
  case (Cons i re)
  show ?case
  proof (cases i)
    case (Lookbehind l)
    with Cons.prems Cons.IH show ?thesis by (auto split: if_splits)
  next
    case Boundary
    with Cons.prems Cons.IH show ?thesis by (auto split: if_splits)
  next
    case (Rep m c)
    with Cons.prems obtain k where
      len: "m \<le> length v" and k: "match_at w re (rev (take m v) @ pre) (drop m v) = Some k"
      and n: "n = m + k"
      by (auto split: if_splits)
    from Cons.IH [OF k] have "k \<le> length v - m" by simp
    with len n show ?thesis by simp
  next
    case (Lit x)
    with Cons.prems obtain ys k where
      v: "v = x # ys" and k: "match_at w re (x # pre) ys = Some k" and n: "n = Suc k"
      by (cases v) (auto split: if_splits)
    from Cons.IH [OF k] show ?thesis using v n by simp
  next
    case (Plus c)
    with Cons.prems obtain k where
      k: "match_at w re (rev (takeWhile (in_cls c) v) @ pre) (dropWhile (in_cls c) v) = Some k"
      and n: "n = length (takeWhile (in_cls c) v) + k"
      by (auto simp: Let_def split: if_splits)
    have "length (takeWhile (in_cls c) v) + length (dropWhile (in_cls c) v) = length v"
      by (metis length_append takeWhile_dropWhile_id)
    with Cons.IH [OF k] n show ?thesis by simp
  qed
qed

lemma re_sub_length_le: "length (re_sub w re pre s) \<le> length s"
proof (induction w re pre s rule: re_sub.induct)
  case (1 w re pre)
  show ?case by simp
next
  case (2 w re pre c cs)
  show ?case
  proof (cases "match_at w re pre (c # cs)")
    case None
    with "2.IH"(1) [OF None] show ?thesis by simp
  next
    case (Some m)
    show ?thesis
    proof (cases m)
      case 0
      with Some "2.IH"(2) [OF Some 0] show ?thesis by simp
    next
      case (Suc n)
      with Some "2.IH"(3) [OF Some Suc] show ?thesis by simp
    qed
  qed
qed

lemma re_sub_length_less_all:
  "\<forall>p v. match_at w re p v \<noteq> Some (Suc 0) \<Longrightarrow> matches_in w re pre s
     \<Longrightarrow> length (re_sub w re pre s) < length s"
proof (induction w re pre s rule: re_sub.induct)
  case (1 w re pre)
  then show ?case by simp
next
  case (2 w re pre c cs)
  note long = "2.prems"(1) and m = "2.prems"(2)
  show ?case
  proof (cases "match_at w re pre (c # cs)")
    case None
    with m "2.IH"(1) [OF None long] show ?thesis by simp
  next
    case (Some k)
    show ?thesis
    proof (cases k)
      case 0
      with Some m "2.IH"(2) [OF Some 0 long] show ?thesis by simp
    next
      case (Suc n)
      from Some Suc long have n: "0 < n" by (cases n) auto
      from match_at_le [OF Some] Suc have le: "n \<le> length cs" by simp
      have "length (re_sub w re (rev (take n cs) @ c # pre) (drop n cs)) \<le> length cs - n"
        using re_sub_length_le [of w re "rev (take n cs) @ c # pre" "drop n cs"] by simp
      with n le Some Suc show ?thesis by simp
    qed
  qed
qed

lemma re_sub_length_less:
  assumes "\<And>p v. match_at w re p v \<noteq> Some (Suc 0)" "matches_in w re pre s"
  shows "length (re_sub w re pre s) < length s"
  using assms by (intro re_sub_length_less_all) simp_all

lemma re_sub_no_matches_in: "\<not> matches_in w re pre s \<Longrightarrow> re_sub w re pre s = s"
proof (induction w re pre s rule: re_sub.induct)
  case (1 w re pre)
  show ?case by simp
next
  case (2 w re pre c cs)
  show ?case
  proof (cases "match_at w re pre (c # cs)")
    case None
    with "2.prems" "2.IH"(1) [OF None] show ?thesis by simp
  next
    case (Some m)
    show ?thesis
    proof (cases m)
      case 0
      with Some "2.prems" "2.IH"(2) [OF Some 0] show ?thesis by simp
    next
      case (Suc n)
      with Some "2.prems" show ?thesis by simp
    qed
  qed
qed

lemma boundary_res_long:
  assumes "re \<in> set (boundary_res r)"
  shows "match_at w re p v \<noteq> Some (Suc 0)"
proof -
  have "match_at w session_cache_re p v \<noteq> Some (Suc 0)"
    by (auto simp: session_cache_re_def split: if_splits)
  moreover have "match_at w session_cached_db_re p v \<noteq> Some (Suc 0)"
    by (auto simp: session_cached_db_re_def split: if_splits)
  moreover have "match_at w hash_re p v \<noteq> Some (Suc 0)"
    by (auto simp: hash_re_def split: if_splits)
  ultimately show ?thesis using assms by (cases r) auto
qed

lemma boundary_res_without_run:
  assumes "\<not> has_run 32 LowerAlnum s" "re \<in> set (boundary_res r)"
  shows "\<not> matches_in w re pre s"
proof
  assume "matches_in w re pre s"
  with boundary_res_long [OF assms(2)] have "length (re_sub w re pre s) < length s"
    by (intro re_sub_length_less)
  then have "re_sub w re pre s \<noteq> s" by auto
  moreover have "re_sub w re pre s = s"
  proof -
    have "re_sub w session_cache_re pre s = s"
      using assms(1) session_cache_match_run by (rule re_sub_without_run)
    moreover have "re_sub w session_cached_db_re pre s = s"
      using assms(1) session_cached_db_match_run by (rule re_sub_without_run)
    moreover have "re_sub w hash_re pre s = s"
      using assms(1) hash_match_run by (rule re_sub_without_run)
    ultimately show ?thesis using assms(2) by (cases r) auto
  qed
  ultimately show False by simp
qed

lemma fold_length_le:
  assumes "\<And>re s. length (f re s) \<le> length (s :: string)"
  shows "length (fold f res x) \<le> length x"
proof (induction res arbitrary: x)
  case Nil
  show ?case by simp
next
  case (Cons re res)
  have "length (fold f res (f re x)) \<le> length (f re x)" by (rule Cons.IH)
  also have "\<dots> \<le> length x" by (rule assms)
  finally show ?case by simp
qed

lemma fold_shrinks:
  assumes le: "\<And>re s. length (f re s) \<le> length (s :: string)"
    and dich: "\<And>re s. re \<in> set bs \<Longrightarrow> f re s = s \<or> length (f re s) < length s"
    and "re \<in> set bs" "f re x \<noteq> x"
  shows "length (fold f (bs @ rest) x) < length x"
  using dich assms(3,4)
proof (induction bs arbitrary: x)
  case Nil
  then show ?case by simp
next
  case (Cons b bs)
  show ?case
  proof (cases "f b x = x")
    case True
    with Cons.prems(2,3) have "re \<in> set bs" by auto
    with Cons.IH [of x] Cons.prems(1,3) True show ?thesis by simp
  next
    case False
    with Cons.prems(1) [of b x] have "length (f b x) < length x" by simp
    moreover have "length (fold f (bs @ rest) (f b x)) \<le> length (f b x)"
      using le by (rule fold_length_le)
    ultimately show ?thesis by simp
  qed
qed

lemma VARIABLE_RES_boundary_first: "VARIABLE_RES r = boundary_res r @ [uuid_re, integer_re]"
  by (cases r) simp_all

text \<open>
  Claim C6, as amended. Cleaning a cleaned key changes nothing exactly when none of the
  patterns that are anchored at a word boundary (those for session keys and for hashes)
  matches in the cleaned key: the UUID pattern cannot match what is left of a scan for
  UUIDs, and the integer pattern has left no digit. In particular it changes nothing when
  the cleaned key holds no 32 characters of \<^verbatim>\<open>[0-9a-z]\<close> in a row.
\<close>

theorem clean_key_idempotent_without_long_run:
  "(\<not> has_run 32 LowerAlnum (clean_key r k) \<longrightarrow> clean_key r (clean_key r k) = clean_key r k)
   \<and> (clean_key r (clean_key r k) = clean_key r k
        \<longleftrightarrow> \<not> (\<exists>re \<in> set (boundary_res r). matches_in (is_word r) re [] (clean_key r k)))"
proof -
  let ?w = "is_word r"
  let ?f = "\<lambda>var_re key. re_sub ?w var_re [] key"
  obtain t where k': "clean_key r k = re_sub ?w integer_re [] (re_sub ?w uuid_re [] t)"
    by (cases r) (simp_all add: clean_key_def)
  let ?k = "clean_key r k"
  have twice: "clean_key r ?k = fold ?f (VARIABLE_RES r) ?k"
    by (simp add: clean_key_def [of r ?k])
  have fixed: "clean_key r ?k = ?k"
    if none: "\<not> (\<exists>re \<in> set (boundary_res r). matches_in ?w re [] ?k)"
  proof -
    have r4: "re_sub ?w uuid_re [] ?k = ?k"
      unfolding k' by (rule uuid_re_fixed)
    have r5: "re_sub ?w integer_re [] ?k = ?k"
      by (rule integer_re_fixed) (simp add: k' integer_re_output)
    have "re_sub ?w re [] ?k = ?k" if "re \<in> set (VARIABLE_RES r)" for re
    proof (cases "re \<in> set (boundary_res r)")
      case True
      with none have "\<not> matches_in ?w re [] ?k" by blast
      then show ?thesis by (rule re_sub_no_matches_in)
    next
      case False
      with that have "re = uuid_re \<or> re = integer_re"
        by (simp add: VARIABLE_RES_boundary_first)
      with r4 r5 show ?thesis by auto
    qed
    then have "fold ?f (VARIABLE_RES r) ?k = ?k"
      by (rule fold_fixed)
    with twice show ?thesis by simp
  qed
  have changed: "clean_key r ?k \<noteq> ?k"
    if some: "\<exists>re \<in> set (boundary_res r). matches_in ?w re [] ?k"
  proof -
    from some obtain re where re: "re \<in> set (boundary_res r)" and m: "matches_in ?w re [] ?k"
      by blast
    have "length (?f re ?k) < length ?k"
      using boundary_res_long [OF re] m by (intro re_sub_length_less)
    then have ne: "?f re ?k \<noteq> ?k" by auto
    have "length (fold ?f (boundary_res r @ [uuid_re, integer_re]) ?k) < length ?k"
    proof (rule fold_shrinks [where f = ?f, OF _ _ re ne])
      show "length (re_sub ?w re' [] s) \<le> length s" for re' s
        by (rule re_sub_length_le)
      show "re_sub ?w re' [] s = s \<or> length (re_sub ?w re' [] s) < length s"
        if "re' \<in> set (boundary_res r)" for re' s
      proof (cases "matches_in ?w re' [] s")
        case True
        with boundary_res_long [OF that] have "length (re_sub ?w re' [] s) < length s"
          by (intro re_sub_length_less)
        then show ?thesis by simp
      next
        case False
        then show ?thesis by (simp add: re_sub_no_matches_in)
      qed
    qed
    then show ?thesis unfolding twice VARIABLE_RES_boundary_first by auto
  qed
  have "clean_key r ?k = ?k" if "\<not> has_run 32 LowerAlnum ?k"
    using that boundary_res_without_run [of ?k _ r ?w "[]"] by (intro fixed) blast
  with fixed changed show ?thesis by blast
qed

text \<open>No pattern of \<^verbatim>\<open>VARIABLE_RES\<close> matches the empty string.\<close>

lemma VARIABLE_RES_nonempty:
  assumes "re \<in> set (VARIABLE_RES r)"
  shows "match_at w re p s \<noteq> Some 0"
proof -
  have "match_at w session_cache_re p s \<noteq> Some 0"
    by (auto simp: session_cache_re_def split: if_splits)
  moreover have "match_at w session_cached_db_re p s \<noteq> Some 0"
    by (auto simp: session_cached_db_re_def split: if_splits)
  moreover have "match_at w hash_re p s \<noteq> Some 0"
    by (auto simp: hash_re_def split: if_splits)
  moreover have "match_at w uuid_re p s \<noteq> Some 0"
    using plain_match_width [OF plain_uuid(1), of w p s 0] by (auto simp: plain_uuid(2))
  moreover have "match_at w integer_re p s \<noteq> Some 0"
    using integer_match_digit [of w p s 0] by auto
  ultimately show ?thesis using assms by (cases r) auto
qed

theorem clean_key_idempotent_without_long_run_witness:
  "\<not> has_run 32 LowerAlnum (clean_key Perf_rec ''sess:0123456789abcdef0123456789abcdef:42'')
   \<and> clean_key Perf_rec ''sess:0123456789abcdef0123456789abcdef:42'' = ''sess:#:#''
   \<and> clean_key Perf_rec (clean_key Perf_rec ''sess:0123456789abcdef0123456789abcdef:42'')
       = clean_key Perf_rec ''sess:0123456789abcdef0123456789abcdef:42''
   \<and> has_run 32 LowerAlnum (clean_key Perf_rec ''zzzzzzzzzzzzzzzzzzzzzzzzzzzzzzzz'')
   \<and> map (\<lambda>re. matches_in (is_word Perf_rec) re []
                   (clean_key Perf_rec ''zzzzzzzzzzzzzzzzzzzzzzzzzzzzzzzz''))
         (boundary_res Perf_rec) = [False, False, False]
   \<and> clean_key Perf_rec (clean_key Perf_rec ''zzzzzzzzzzzzzzzzzzzzzzzzzzzzzzzz'')
       = clean_key Perf_rec ''zzzzzzzzzzzzzzzzzzzzzzzzzzzzzzzz''"
proof -
  have e: "clean_key Perf_rec ''sess:0123456789abcdef0123456789abcdef:42'' = ''sess:#:#''"
    by code_simp
  have "\<not> has_run 32 LowerAlnum ''sess:#:#''"
    by code_simp
  then have h: "\<not> has_run 32 LowerAlnum
                   (clean_key Perf_rec ''sess:0123456789abcdef0123456789abcdef:42'')"
    unfolding e .
  have z: "clean_key Perf_rec ''zzzzzzzzzzzzzzzzzzzzzzzzzzzzzzzz'' = ''zzzzzzzzzzzzzzzzzzzzzzzzzzzzzzzz''"
    by code_simp
  have "has_run 32 LowerAlnum ''zzzzzzzzzzzzzzzzzzzzzzzzzzzzzzzz''"
    by code_simp
  then have hz: "has_run 32 LowerAlnum (clean_key Perf_rec ''zzzzzzzzzzzzzzzzzzzzzzzzzzzzzzzz'')"
    unfolding z .
  have "map (\<lambda>re. matches_in (is_word Perf_rec) re [] ''zzzzzzzzzzzzzzzzzzzzzzzzzzzzzzzz'')
         (boundary_res Perf_rec) = [False, False, False]"
    by code_simp
  then have mz: "map (\<lambda>re. matches_in (is_word Perf_rec) re []
                   (clean_key Perf_rec ''zzzzzzzzzzzzzzzzzzzzzzzzzzzzzzzz''))
         (boundary_res Perf_rec) = [False, False, False]"
    unfolding z .
  then have nz: "\<not> (\<exists>re \<in> set (boundary_res Perf_rec).
           matches_in (is_word Perf_rec) re [] (clean_key Perf_rec ''zzzzzzzzzzzzzzzzzzzzzzzzzzzzzzzz''))"
    by simp
  from clean_key_idempotent_without_long_run
         [of Perf_rec "''sess:0123456789abcdef0123456789abcdef:42''", THEN conjunct1] h
  have i1: "clean_key Perf_rec (clean_key Perf_rec ''sess:0123456789abcdef0123456789abcdef:42'')
       = clean_key Perf_rec ''sess:0123456789abcdef0123456789abcdef:42''"
    by (rule mp)
  from clean_key_idempotent_without_long_run
         [of Perf_rec "''zzzzzzzzzzzzzzzzzzzzzzzzzzzzzzzz''", THEN conjunct2] nz
  have i2: "clean_key Perf_rec (clean_key Perf_rec ''zzzzzzzzzzzzzzzzzzzzzzzzzzzzzzzz'')
       = clean_key Perf_rec ''zzzzzzzzzzzzzzzzzzzzzzzzzzzzzzzz''"
    by (rule iffD2)
  from h e i1 hz mz i2 show ?thesis by blast
qed

text \<open>
  Claim C6 as stated fails: in a digit followed by 32 letters \<^verbatim>\<open>a\<close> the hash pattern does
  not match, since no word boundary stands between the digit and the letters; the integer
  pattern turns the digit into \<^verbatim>\<open>#\<close>, and in the result the hash pattern matches. So
  cleaning the cleaned key changes it, in both releases.
\<close>

theorem clean_key_not_idempotent_counterexample:
  "clean_key Perf_rec ''5aaaaaaaaaaaaaaaaaaaaaaaaaaaaaaaa'' = ''#aaaaaaaaaaaaaaaaaaaaaaaaaaaaaaaa''
   \<and> clean_key Perf_rec (clean_key Perf_rec ''5aaaaaaaaaaaaaaaaaaaaaaaaaaaaaaaa'') = ''##''
   \<and> clean_key Perf_rec (clean_key Perf_rec ''5aaaaaaaaaaaaaaaaaaaaaaaaaaaaaaaa'')
       \<noteq> clean_key Perf_rec ''5aaaaaaaaaaaaaaaaaaaaaaaaaaaaaaaa''
   \<and> clean_key (Performance_recorder Python2)
         (clean_key (Performance_recorder Python2) ''5aaaaaaaaaaaaaaaaaaaaaaaaaaaaaaaa'')
       \<noteq> clean_key (Performance_recorder Python2) ''5aaaaaaaaaaaaaaaaaaaaaaaaaaaaaaaa''
   \<and> clean_key (Performance_recorder Python3)
         (clean_key (Performance_recorder Python3) ''5aaaaaaaaaaaaaaaaaaaaaaaaaaaaaaaa'')
       \<noteq> clean_key (Performance_recorder Python3) ''5aaaaaaaaaaaaaaaaaaaaaaaaaaaaaaaa''"
proof -
  have a: "clean_key Perf_rec ''5aaaaaaaaaaaaaaaaaaaaaaaaaaaaaaaa''
             = ''#aaaaaaaaaaaaaaaaaaaaaaaaaaaaaaaa''"
    by code_simp
  have b: "clean_key Perf_rec ''#aaaaaaaaaaaaaaaaaaaaaaaaaaaaaaaa'' = ''##''"
    by code_simp
  have c: "clean_key (Performance_recorder py) ''5aaaaaaaaaaaaaaaaaaaaaaaaaaaaaaaa''
             = ''#aaaaaaaaaaaaaaaaaaaaaaaaaaaaaaaa''" if "py = Python2 \<or> py = Python3" for py
    using that by (elim disjE; hypsubst) code_simp+
  have d: "clean_key (Performance_recorder py) ''#aaaaaaaaaaaaaaaaaaaaaaaaaaaaaaaa'' = ''##''"
    if "py = Python2 \<or> py = Python3" for py
    using that by (elim disjE; hypsubst) code_simp+
  show ?thesis unfolding a b c [of Python2, simplified] c [of Python3, simplified]
      d [of Python2, simplified] d [of Python3, simplified] by simp
qed

end
